theory Spec2Isabelle
  imports Main "HOL-Library.Word"
begin

section \<open>Allocation and garbage collection (gc.c)\<close>

text \<open>
  The collector of \<^verbatim>\<open>gc.c\<close>: a non-moving mark and sweep collector that pool-allocates
  small objects and keeps big objects on a list. The development follows the C file
  function by function. A 64-bit target (\<^verbatim>\<open>BITS64\<close>, \<^verbatim>\<open>sizeof(void*) = 8\<close>) is assumed.
\<close>

subsection \<open>Sizes\<close>

type_synonym size_t = "64 word"

text \<open>\<^verbatim>\<open>#define GC_PAGE_SZ 16384\<close>, \<^verbatim>\<open>#define N_POOLS 16\<close>, \<^verbatim>\<open>sizeof(void*)\<close>.\<close>

definition GC_PAGE_SZ :: nat where
  "GC_PAGE_SZ = 16384"

definition N_POOLS :: nat where
  "N_POOLS = 16"

definition ptr_sz :: nat where
  "ptr_sz = 8"

text \<open>The table \<^verbatim>\<open>szc\<close> of \<^verbatim>\<open>jl_gc_init\<close>: the nominal payload size of each pool.\<close>

definition szc :: "nat list" where
  "szc = [8, 16, 24, 32, 48, 64, 96, 128, 192, 256, 384, 512, 768, 1024, 1536, 2048]"

text \<open>\<^verbatim>\<open>static int szclass(size_t sz)\<close>: the decision tree, branch by branch.\<close>

definition szclass :: "size_t \<Rightarrow> int" where
  "szclass sz =
     (if sz \<le> 8 then 0
      else if sz \<le> 128 then
        (if sz \<le> 16 then 1
         else if sz \<le> 32 then (if sz \<le> 24 then 2 else 3)
         else if sz \<le> 64 then (if sz \<le> 48 then 4 else 5)
         else if sz \<le> 96 then 6
         else 7)
      else if sz \<le> 512 then
        (if sz \<le> 256 then (if sz \<le> 192 then 8 else 9)
         else if sz \<le> 384 then 10
         else 11)
      else if sz \<le> 1024 then (if sz \<le> 768 then 12 else 13)
      else if sz \<le> 1536 then 14
      else 15)"


subsection \<open>Memory, the OS allocator and header words\<close>

text \<open>
  A pointer is a byte address, a natural number, and \<^verbatim>\<open>NULL\<close> is 0. Memory maps the
  address of a pointer-sized word to its contents. A header word (the union of \<^verbatim>\<open>next\<close>,
  \<^verbatim>\<open>flags\<close> and the bit-fields of \<^verbatim>\<open>gcval_t\<close>) is held as the number it denotes, so that a
  stored pointer and the flags read back from it are one value, as in the union.

  This is the memory of the program as long as the words in use do not overlap and no
  address computation leaves the addresses of a block: for blocks of \<^verbatim>\<open>malloc\<close> that are not
  null, and for cell sizes from \<^verbatim>\<open>sizeof(void*)\<close> to \<^verbatim>\<open>GC_PAGE_SZ\<close>, which include the sizes
  \<^verbatim>\<open>jl_gc_init\<close> sets (16 to 2056). Outside of that the definitions below are not the
  program: a store through a null block is an ordinary store here and a fault there; with
  a cell size below \<^verbatim>\<open>sizeof(void*)\<close> the link words of neighbouring cells would overlap;
  with a cell size above \<^verbatim>\<open>pg + GC_PAGE_SZ\<close> the limit \<^verbatim>\<open>pg + GC_PAGE_SZ - osize\<close> of a
  cell loop wraps around in C and is 0 here. The statements about \<open>add_page\<close> and
  \<open>sweep_pool\<close> are made inside that range.
\<close>

type_synonym addr = nat

abbreviation NULL :: addr where
  "NULL \<equiv> 0"

type_synonym memory = "addr \<Rightarrow> nat"

text \<open>
  The calls to \<^verbatim>\<open>malloc\<close> and \<^verbatim>\<open>free\<close> are recorded in order. What \<^verbatim>\<open>malloc\<close> returns
  is the environment's choice: every function that calls it takes the returned address
  as its first argument (\<^verbatim>\<open>NULL\<close> when the allocator fails).
\<close>

datatype os_call = Malloc size_t addr | Free addr

record heap =
  mem :: memory
  os_log :: "os_call list"

definition store :: "addr \<Rightarrow> nat \<Rightarrow> heap \<Rightarrow> heap" where
  "store a w h = h\<lparr>mem := (mem h)(a := w)\<rparr>"

definition os_malloc :: "size_t \<Rightarrow> addr \<Rightarrow> heap \<Rightarrow> heap" where
  "os_malloc n a h = h\<lparr>os_log := os_log h @ [Malloc n a]\<rparr>"

definition os_free :: "addr \<Rightarrow> heap \<Rightarrow> heap" where
  "os_free a h = h\<lparr>os_log := os_log h @ [Free a]\<rparr>"

text \<open>
  The bit-fields of a header word: \<^verbatim>\<open>marked:1\<close> is bit 0, \<^verbatim>\<open>finalize:1\<close> bit 1 and
  \<^verbatim>\<open>otherbits:62\<close> the rest. \<^verbatim>\<open>#define gcv_isfree(v) ((v)->otherbits!=0)\<close>.
\<close>

definition marked :: "nat \<Rightarrow> bool" where
  "marked w = odd w"

definition otherbits :: "nat \<Rightarrow> nat" where
  "otherbits w = w div 4"

definition gcv_isfree :: "nat \<Rightarrow> bool" where
  "gcv_isfree w = (otherbits w \<noteq> 0)"

text \<open>The assignments \<^verbatim>\<open>->marked = 1\<close> and \<^verbatim>\<open>->marked = 0\<close> on a header word.\<close>

definition set_marked :: "nat \<Rightarrow> nat" where
  "set_marked w = 2 * (w div 2) + 1"

definition clear_marked :: "nat \<Rightarrow> nat" where
  "clear_marked w = 2 * (w div 2)"

text \<open>
  \<^verbatim>\<open>gc_val(o)\<close> is the word before the payload \<^verbatim>\<open>o\<close>; \<^verbatim>\<open>gc_marked\<close>, \<^verbatim>\<open>gc_setmark\<close>.
\<close>

definition gc_val :: "addr \<Rightarrow> addr" where
  "gc_val ob = ob - ptr_sz"

definition gc_marked :: "memory \<Rightarrow> addr \<Rightarrow> bool" where
  "gc_marked m ob = marked (m (gc_val ob))"

definition gc_setmark :: "addr \<Rightarrow> memory \<Rightarrow> memory" where
  "gc_setmark ob m = m(gc_val ob := set_marked (m (gc_val ob)))"

text \<open>A failed \<^verbatim>\<open>assert\<close> aborts the program.\<close>

datatype gc_error = Assertion_failed

subsection \<open>Pools and pages\<close>

text \<open>
  \<^verbatim>\<open>pool_t\<close>. A page \<^verbatim>\<open>pg\<close> holds its \<^verbatim>\<open>next\<close> link in the word at \<^verbatim>\<open>pg\<close> and its cells from
  \<^verbatim>\<open>pg + sizeof(void*)\<close> on; a cell \<^verbatim>\<open>v\<close> holds its header in the word at \<^verbatim>\<open>v\<close>.
\<close>

record pool_t =
  osize :: nat
  pages :: addr
  freelist :: addr

text \<open>
  The cursors \<^verbatim>\<open>gcval_t **pfl\<close> and \<^verbatim>\<open>page_t **ppg\<close> point either at a field of the pool
  or at the link word of a cell or page.
\<close>

datatype pfl_ref = Pool_freelist | Cell_next addr

datatype ppg_ref = Pool_pages | Page_next addr

text \<open>\<^verbatim>\<open>*pfl = v\<close> and \<^verbatim>\<open>*ppg = pg\<close>.\<close>

definition set_pfl :: "pfl_ref \<Rightarrow> addr \<Rightarrow> pool_t \<times> memory \<Rightarrow> pool_t \<times> memory" where
  "set_pfl pfl v pm =
     (case pfl of
        Pool_freelist \<Rightarrow> ((fst pm)\<lparr>freelist := v\<rparr>, snd pm)
      | Cell_next c \<Rightarrow> (fst pm, (snd pm)(c := v)))"

definition set_ppg :: "ppg_ref \<Rightarrow> addr \<Rightarrow> pool_t \<times> memory \<Rightarrow> pool_t \<times> memory" where
  "set_ppg ppg pg pm =
     (case ppg of
        Pool_pages \<Rightarrow> ((fst pm)\<lparr>pages := pg\<rparr>, snd pm)
      | Page_next q \<Rightarrow> (fst pm, (snd pm)(q := pg)))"

text \<open>
  The loop of \<^verbatim>\<open>add_page\<close>: \<^verbatim>\<open>while ((char*)v <= lim) { *pfl = v; pfl = &v->next; v += osize; }\<close>.
  With \<^verbatim>\<open>osize = 0\<close> it never ends.
\<close>

definition add_page_body :: "addr \<Rightarrow> pfl_ref \<Rightarrow> pool_t \<times> memory \<Rightarrow> addr \<times> pfl_ref \<times> pool_t \<times> memory" where
  "add_page_body v pfl pm =
     (let pm' = set_pfl pfl v pm in (v + osize (fst pm'), Cell_next v, pm'))"

partial_function (option) add_page_loop ::
  "addr \<Rightarrow> addr \<Rightarrow> pfl_ref \<Rightarrow> pool_t \<times> memory \<Rightarrow> (pfl_ref \<times> pool_t \<times> memory) option" where
  "add_page_loop lim v pfl pm =
     (if v \<le> lim then
        add_page_loop lim (fst (add_page_body v pfl pm)) (fst (snd (add_page_body v pfl pm)))
          (snd (snd (add_page_body v pfl pm)))
      else Some (pfl, pm))"

declare add_page_loop.simps [code]

text \<open>
  \<^verbatim>\<open>static void add_page(pool_t *p)\<close>; \<^verbatim>\<open>sizeof(page_t)\<close> is \<^verbatim>\<open>GC_PAGE_SZ\<close>. \<open>pg\<close> is the block
  \<^verbatim>\<open>malloc\<close> returned; the definition is the function for a block that is not null and a
  cell size from \<^verbatim>\<open>sizeof(void*)\<close> to \<^verbatim>\<open>GC_PAGE_SZ\<close>.
\<close>

definition add_page :: "addr \<Rightarrow> pool_t \<Rightarrow> heap \<Rightarrow> (pool_t \<times> heap) option" where
  "add_page pg p h =
     (let h1 = os_malloc (of_nat GC_PAGE_SZ) pg h;
          v = pg + ptr_sz;
          lim = pg + GC_PAGE_SZ - osize p;
          oldfl = freelist p
      in case add_page_loop lim v Pool_freelist (p, mem h1) of
           None \<Rightarrow> None
         | Some (pfl, pm) \<Rightarrow>
             (let pm1 = set_pfl pfl oldfl pm;
                  m2 = (snd pm1)(pg := pages (fst pm1));
                  p3 = (fst pm1)\<lparr>pages := m2 pg\<rparr>
              in Some (p3, h1\<lparr>mem := m2\<rparr>)))"

text \<open>
  \<^verbatim>\<open>static void *pool_alloc(pool_t *p)\<close>: the payload \<^verbatim>\<open>&v->_data[0]\<close> is one word after
  the header.
\<close>

definition pool_alloc :: "addr \<Rightarrow> pool_t \<Rightarrow> heap \<Rightarrow> (gc_error + addr \<times> pool_t \<times> heap) option" where
  "pool_alloc pg p h =
     (case (if freelist p = NULL then add_page pg p h else Some (p, h)) of
        None \<Rightarrow> None
      | Some (p1, h1) \<Rightarrow>
          (if freelist p1 = NULL then Some (Inl Assertion_failed)
           else let v = freelist p1;
                    p2 = p1\<lparr>freelist := mem h1 (freelist p1)\<rparr>;
                    h2 = store v 0 h1
                in Some (Inr (v + ptr_sz, p2, h2))))"

subsection \<open>Sweeping a pool\<close>

text \<open>
  The body of the inner loop of \<^verbatim>\<open>sweep_pool\<close> for the cell \<^verbatim>\<open>v\<close>; the loop state is
  \<^verbatim>\<open>empty\<close>, \<^verbatim>\<open>pfl\<close>, the pool and the memory.
\<close>

definition sweep_cell ::
  "addr \<Rightarrow> bool \<times> pfl_ref \<times> pool_t \<times> memory \<Rightarrow> bool \<times> pfl_ref \<times> pool_t \<times> memory" where
  "sweep_cell v st =
     (let emp = fst st; pfl = fst (snd st); pm = snd (snd st);
          empty1 = (if \<not> gcv_isfree (snd pm v) then False else emp)
      in if gcv_isfree (snd pm v) \<or> \<not> marked (snd pm v)
         then (empty1, Cell_next v, set_pfl pfl v pm)
         else (empty1, pfl, (fst pm, (snd pm)(v := clear_marked (snd pm v)))))"

partial_function (option) sweep_page_loop ::
  "addr \<Rightarrow> addr \<Rightarrow> bool \<times> pfl_ref \<times> pool_t \<times> memory \<Rightarrow>
     (bool \<times> pfl_ref \<times> pool_t \<times> memory) option" where
  "sweep_page_loop lim v st =
     (if v \<le> lim
      then sweep_page_loop lim (v + osize (fst (snd (snd (sweep_cell v st))))) (sweep_cell v st)
      else Some st)"

declare sweep_page_loop.simps [code]

text \<open>
  The body of the outer loop for the page \<^verbatim>\<open>pg\<close>: the cells are swept, then the page is
  unlinked and freed if \<^verbatim>\<open>empty\<close> is still set, with \<^verbatim>\<open>pfl\<close> put back to \<^verbatim>\<open>prev_pfl\<close>.
  The result is the next \<^verbatim>\<open>pg\<close>, \<^verbatim>\<open>ppg\<close> and \<^verbatim>\<open>pfl\<close>. As for \<open>add_page\<close>, the definition is the
  code for a cell size from \<^verbatim>\<open>sizeof(void*)\<close> to \<^verbatim>\<open>GC_PAGE_SZ\<close>.
\<close>

definition sweep_page ::
  "addr \<Rightarrow> ppg_ref \<Rightarrow> pfl_ref \<Rightarrow> pool_t \<times> heap \<Rightarrow>
     (addr \<times> ppg_ref \<times> pfl_ref \<times> pool_t \<times> heap) option" where
  "sweep_page pg ppg pfl ph =
     (let lim = pg + GC_PAGE_SZ - osize (fst ph);
          v = pg + ptr_sz;
          prev_pfl = pfl
      in case sweep_page_loop lim v (True, pfl, fst ph, mem (snd ph)) of
           None \<Rightarrow> None
         | Some (emp, pfl1, pm1) \<Rightarrow>
             (let nextpg = snd pm1 pg
              in if emp
                 then (let pm2 = set_ppg ppg nextpg pm1
                       in Some (nextpg, ppg, prev_pfl, fst pm2,
                            os_free pg ((snd ph)\<lparr>mem := snd pm2\<rparr>)))
                 else Some (nextpg, Page_next pg, pfl1, fst pm1, (snd ph)\<lparr>mem := snd pm1\<rparr>)))"

partial_function (option) sweep_pool_loop ::
  "addr \<Rightarrow> ppg_ref \<Rightarrow> pfl_ref \<Rightarrow> pool_t \<times> heap \<Rightarrow> (pfl_ref \<times> pool_t \<times> heap) option" where
  "sweep_pool_loop pg ppg pfl ph =
     (if pg \<noteq> NULL
      then Option.bind (sweep_page pg ppg pfl ph)
             (\<lambda>r. sweep_pool_loop (fst r) (fst (snd r)) (fst (snd (snd r))) (snd (snd (snd r))))
      else Some (pfl, ph))"

declare sweep_pool_loop.simps [code]

text \<open>\<^verbatim>\<open>static void sweep_pool(pool_t *p)\<close>.\<close>

definition sweep_pool :: "pool_t \<Rightarrow> heap \<Rightarrow> (pool_t \<times> heap) option" where
  "sweep_pool p h =
     (case sweep_pool_loop (pages p) Pool_pages Pool_freelist (p, h) of
        None \<Rightarrow> None
      | Some (pfl, p1, h1) \<Rightarrow>
          (let pm2 = set_pfl pfl NULL (p1, mem h1)
           in Some (fst pm2, h1\<lparr>mem := snd pm2\<rparr>)))"

subsection \<open>Big objects\<close>

text \<open>
  A \<^verbatim>\<open>bigval_t\<close> at \<^verbatim>\<open>v\<close> holds \<^verbatim>\<open>next\<close> in the word at \<^verbatim>\<open>v\<close>, its flags in the word at
  \<^verbatim>\<open>v + sizeof(void*)\<close> and its payload from \<^verbatim>\<open>v + 2*sizeof(void*)\<close> on.
  \<^verbatim>\<open>static void *alloc_big(size_t sz)\<close>, on the list head \<^verbatim>\<open>big_objects\<close> and the heap; the
  size passed to \<^verbatim>\<open>malloc\<close> is computed in \<^verbatim>\<open>size_t\<close>. \<open>v\<close> is the block \<^verbatim>\<open>malloc\<close> returned;
  the definition is the function for a block that is not null (the first statement
  stores through the block, before \<^verbatim>\<open>big_objects\<close> is assigned).
\<close>

definition alloc_big :: "addr \<Rightarrow> size_t \<Rightarrow> addr \<times> heap \<Rightarrow> addr \<times> addr \<times> heap" where
  "alloc_big v sz bh =
     (let h1 = os_malloc (sz + 2 * of_nat ptr_sz) v (snd bh);
          h2 = store v (fst bh) h1;
          h3 = store (v + ptr_sz) 0 h2
      in (v + 2 * ptr_sz, v, h3))"

datatype pv_ref = Big_objects | Big_next addr

definition set_pv :: "pv_ref \<Rightarrow> addr \<Rightarrow> addr \<times> heap \<Rightarrow> addr \<times> heap" where
  "set_pv pv v bh =
     (case pv of
        Big_objects \<Rightarrow> (v, snd bh)
      | Big_next b \<Rightarrow> (fst bh, store b v (snd bh)))"

definition sweep_big_body :: "addr \<Rightarrow> pv_ref \<Rightarrow> addr \<times> heap \<Rightarrow> addr \<times> pv_ref \<times> addr \<times> heap" where
  "sweep_big_body v pv bh =
     (let nxt = mem (snd bh) v
      in if marked (mem (snd bh) (v + ptr_sz))
         then (nxt, Big_next v, fst bh,
               store (v + ptr_sz) (clear_marked (mem (snd bh) (v + ptr_sz))) (snd bh))
         else (let bh1 = set_pv pv nxt bh in (nxt, pv, fst bh1, os_free v (snd bh1))))"

partial_function (option) sweep_big_loop ::
  "addr \<Rightarrow> pv_ref \<Rightarrow> addr \<times> heap \<Rightarrow> (addr \<times> heap) option" where
  "sweep_big_loop v pv bh =
     (if v \<noteq> NULL
      then sweep_big_loop (fst (sweep_big_body v pv bh)) (fst (snd (sweep_big_body v pv bh)))
             (snd (snd (sweep_big_body v pv bh)))
      else Some bh)"

declare sweep_big_loop.simps [code]

definition sweep_big :: "addr \<times> heap \<Rightarrow> (addr \<times> heap) option" where
  "sweep_big bh = sweep_big_loop (fst bh) Big_objects bh"

subsection \<open>The runtime's objects\<close>

text \<open>
  The declarations of \<^verbatim>\<open>julia.h\<close> and \<^verbatim>\<open>llt.h\<close> are not part of the file. The runtime is a
  parameter: a value \<^verbatim>\<open>v\<close> is described by the first predicate of \<^verbatim>\<open>gc_markval\<close>'s chain
  that holds of it, together with the fields that branch reads, in the order it reads
  them. The marker only writes mark bits, so the description does not change while it
  runs.
\<close>

datatype jl_value =
    Bits
  | Array (a_dims: addr) (a_data: addr) (a_space: addr) (a_elty_is_bits: bool)
      (a_elems: "addr list")
  | Tuple (t_data: "addr list")
  | Lambda_info addr addr addr addr addr addr
  | Func addr addr
  | Typename addr
  | Tag_type addr addr addr addr addr
  | Struct_type addr addr addr addr addr addr addr addr addr
  | Bits_type addr addr addr addr addr addr
  | Mtable addr addr "addr list"
  | Task addr addr addr addr
  | Other bool "addr list"

text \<open>
  The fields are, in order:
  \<^verbatim>\<open>Lambda_info\<close> ast, sparams, tfunc, roots, specTypes, unspecialized;
  \<^verbatim>\<open>Func\<close> env, linfo; \<^verbatim>\<open>Typename\<close> primary;
  \<^verbatim>\<open>Tag_type\<close> env, linfo, name, super, parameters;
  \<^verbatim>\<open>Struct_type\<close> env, linfo, name, super, parameters, names, types, ctor_factory, instance;
  \<^verbatim>\<open>Bits_type\<close> env, linfo, name, super, parameters, bnbits;
  \<^verbatim>\<open>Mtable\<close> defs, cache and the \<^verbatim>\<open>n_1arg\<close> entries of cache_1arg;
  \<^verbatim>\<open>Task\<close> on_exit, start, result, state.eh_task;
  \<^verbatim>\<open>Other\<close> whether \<^verbatim>\<open>jl_typeof(v)\<close> is a struct type, and the \<^verbatim>\<open>nf\<close> fields \<^verbatim>\<open>v[1..nf]\<close>.
\<close>

record jl_methlist_t =
  ml_sig :: addr
  ml_tvars :: addr
  ml_func :: addr
  ml_next :: addr

record jl_binding_t =
  b_value :: addr
  b_type :: addr

record runtime =
  objs :: "addr \<Rightarrow> jl_value"
  methlists :: "addr \<Rightarrow> jl_methlist_t"
  bindings_table :: "addr \<Rightarrow> addr list"
  bindings :: "addr \<Rightarrow> jl_binding_t"
  HT_NOTFOUND :: addr
  jl_root_task :: addr
  jl_current_task :: addr
  jl_system_module :: addr
  jl_user_module :: addr
  jl_methtable_type :: addr
  jl_bottom_func :: addr
  jl_any_func :: addr
  jl_null :: addr
  jl_true :: addr
  jl_false :: addr
  jl_mark_type_cache :: "memory \<Rightarrow> (gc_error + memory) option"

subsection \<open>Marking\<close>

text \<open>
  A function that may abort or not return gives \<open>Some (Inl e)\<close> when it aborts,
  \<open>Some (Inr x)\<close> when it returns \<open>x\<close> and \<open>None\<close> when it does not return.
\<close>

type_synonym 'a result = "(gc_error + 'a) option"

definition bind_r :: "'a result \<Rightarrow> ('a \<Rightarrow> 'b result) \<Rightarrow> 'b result" where
  "bind_r r f = (case r of None \<Rightarrow> None | Some (Inl e) \<Rightarrow> Some (Inl e) | Some (Inr x) \<Rightarrow> f x)"

definition non_null :: "addr list \<Rightarrow> addr list" where
  "non_null xs = filter (\<lambda>x. x \<noteq> NULL) xs"

text \<open>
  \<^verbatim>\<open>gc_markval\<close>, a run of \<^verbatim>\<open>GC_Markval\<close> calls one after the other (\<open>gc_markvals\<close>), and
  \<^verbatim>\<open>gc_mark_methlist\<close>. The first argument bounds the depth of the C recursion and the
  number of iterations of the method list loop; \<open>None\<close> means the bound was reached.
\<close>

fun gc_markval :: "nat \<Rightarrow> runtime \<Rightarrow> addr \<Rightarrow> memory \<Rightarrow> memory result"
  and gc_markvals :: "nat \<Rightarrow> runtime \<Rightarrow> addr list \<Rightarrow> memory \<Rightarrow> memory result"
  and gc_mark_methlist :: "nat \<Rightarrow> runtime \<Rightarrow> addr \<Rightarrow> memory \<Rightarrow> memory result" where
  "gc_markval 0 rt v m = None"
| "gc_markval (Suc n) rt v m =
     (if v = NULL then Some (Inl Assertion_failed)
      else if gc_marked m v then Some (Inr m)
      else
        (case objs rt v of
           Bits \<Rightarrow> Some (Inr (gc_setmark v m))
         | Array dims data space elty_is_bits elems \<Rightarrow>
             bind_r (gc_markval n rt dims (gc_setmark v m))
               (\<lambda>m1. if \<not> elty_is_bits
                      then gc_markvals n rt (non_null elems)
                             (if data \<noteq> space then gc_setmark data m1 else m1)
                      else Some (Inr (if data \<noteq> space then gc_setmark data m1 else m1)))
         | Tuple elems \<Rightarrow> gc_markvals n rt (non_null elems) (gc_setmark v m)
         | Lambda_info ast sparams tfunc roots specTypes unspecialized \<Rightarrow>
             gc_markvals n rt ([ast, sparams, tfunc, roots, specTypes] @ non_null [unspecialized])
               (gc_setmark v m)
         | Func env linfo \<Rightarrow> gc_markvals n rt (non_null [env, linfo]) (gc_setmark v m)
         | Typename primary \<Rightarrow> gc_markvals n rt (non_null [primary]) (gc_setmark v m)
         | Tag_type env linfo name super parameters \<Rightarrow>
             (if env \<noteq> NULL \<or> linfo \<noteq> NULL then Some (Inl Assertion_failed)
              else gc_markvals n rt [name, super, parameters] (gc_setmark v m))
         | Struct_type env linfo name super parameters names types ctor_factory instance \<Rightarrow>
             gc_markvals n rt
               (non_null [env, linfo] @ [name, super, parameters, names, types]
                  @ non_null [ctor_factory] @ non_null [instance])
               (gc_setmark v m)
         | Bits_type env linfo name super parameters bnbits \<Rightarrow>
             (if env \<noteq> NULL \<or> linfo \<noteq> NULL then Some (Inl Assertion_failed)
              else gc_markvals n rt [name, super, parameters, bnbits] (gc_setmark v m))
         | Mtable defs cache cache_1arg \<Rightarrow>
             bind_r (gc_mark_methlist n rt defs (gc_setmark v m))
               (\<lambda>m1. bind_r (gc_mark_methlist n rt cache m1)
                  (\<lambda>m2. gc_markvals n rt (non_null cache_1arg) m2))
         | Task on_exit start result eh_task \<Rightarrow>
             gc_markvals n rt [on_exit, start, result, eh_task] (gc_setmark v m)
         | Other type_is_struct flds \<Rightarrow>
             (if \<not> type_is_struct then Some (Inl Assertion_failed)
              else gc_markvals n rt flds (gc_setmark v m))))"
| "gc_markvals n rt [] m = Some (Inr m)"
| "gc_markvals n rt (x # xs) m = bind_r (gc_markval n rt x m) (\<lambda>m1. gc_markvals n rt xs m1)"
| "gc_mark_methlist 0 rt ml m = None"
| "gc_mark_methlist (Suc n) rt ml m =
     (if ml \<noteq> NULL
      then bind_r
             (gc_markvals n rt
                [ml_sig (methlists rt ml), ml_tvars (methlists rt ml), ml_func (methlists rt ml)]
                (gc_setmark ml m))
             (\<lambda>m1. gc_mark_methlist n rt (ml_next (methlists rt ml)) m1)
      else Some (Inr m))"

text \<open>
  \<^verbatim>\<open>gc_mark_module\<close>: the loop \<^verbatim>\<open>for(i=1; i < m->bindings.size; i+=2)\<close> from index \<open>i\<close> on,
  over the table of the module.
\<close>

function gc_mark_module_loop ::
  "nat \<Rightarrow> runtime \<Rightarrow> addr list \<Rightarrow> nat \<Rightarrow> memory \<Rightarrow> memory result" where
  "gc_mark_module_loop n rt table i m =
     (if i < length table
      then (if table ! i \<noteq> HT_NOTFOUND rt
            then bind_r
                   (gc_markvals n rt
                      (non_null [b_value (bindings rt (table ! i))]
                         @ [b_type (bindings rt (table ! i))])
                      (gc_setmark (table ! i) m))
                   (\<lambda>m1. gc_mark_module_loop n rt table (i + 2) m1)
            else gc_mark_module_loop n rt table (i + 2) m)
      else Some (Inr m))"
  by pat_completeness auto
termination
  by (relation "measure (\<lambda>(n, rt, table, i, m). length table - i)") auto

declare gc_mark_module_loop.simps [simp del]

definition gc_mark_module :: "nat \<Rightarrow> runtime \<Rightarrow> addr \<Rightarrow> memory \<Rightarrow> memory result" where
  "gc_mark_module n rt md m =
     gc_mark_module_loop n rt (bindings_table rt md) 1 (gc_setmark md m)"

text \<open>\<^verbatim>\<open>static void gc_mark()\<close>; \<^verbatim>\<open>jl_mark_type_cache\<close> is the runtime's.\<close>

definition gc_mark :: "nat \<Rightarrow> runtime \<Rightarrow> memory \<Rightarrow> memory result" where
  "gc_mark n rt m =
     bind_r (gc_markvals n rt [jl_root_task rt, jl_current_task rt] m)
       (\<lambda>m1. bind_r (gc_mark_module n rt (jl_system_module rt) m1)
          (\<lambda>m2. bind_r (gc_mark_module n rt (jl_user_module rt) m2)
             (\<lambda>m3. bind_r
                (gc_markvals n rt
                   [jl_methtable_type rt, jl_bottom_func rt, jl_any_func rt,
                    jl_null rt, jl_true rt, jl_false rt] m3)
                (\<lambda>m4. jl_mark_type_cache rt m4))))"

subsection \<open>The collector and the allocation entry point\<close>

text \<open>
  The globals of the file. \<open>collections\<close> is not a variable of the program: it counts
  the calls of \<^verbatim>\<open>gc_collect\<close>.
\<close>

record gc_state =
  hp :: heap
  big_objects :: addr
  pools :: "nat \<Rightarrow> pool_t"
  allocd_bytes :: size_t
  collect_interval :: size_t
  collections :: nat

text \<open>\<^verbatim>\<open>gc_sweep\<close>: \<^verbatim>\<open>sweep_big()\<close>, then \<^verbatim>\<open>sweep_pool(&pools[i])\<close> for the given indices.\<close>

fun sweep_pools :: "nat list \<Rightarrow> gc_state \<Rightarrow> gc_state option" where
  "sweep_pools [] s = Some s"
| "sweep_pools (i # is) s =
     (case sweep_pool (pools s i) (hp s) of
        None \<Rightarrow> None
      | Some (p1, h1) \<Rightarrow> sweep_pools is (s\<lparr>pools := (pools s)(i := p1), hp := h1\<rparr>))"

definition gc_sweep :: "gc_state \<Rightarrow> gc_state option" where
  "gc_sweep s =
     (case sweep_big (big_objects s, hp s) of
        None \<Rightarrow> None
      | Some (b1, h1) \<Rightarrow> sweep_pools [0..<N_POOLS] (s\<lparr>big_objects := b1, hp := h1\<rparr>))"

text \<open>\<^verbatim>\<open>void gc_collect()\<close>.\<close>

definition gc_collect :: "nat \<Rightarrow> runtime \<Rightarrow> gc_state \<Rightarrow> gc_state result" where
  "gc_collect n rt s =
     bind_r (gc_mark n rt (mem (hp s)))
       (\<lambda>m1. case gc_sweep (s\<lparr>collections := collections s + 1, hp := (hp s)\<lparr>mem := m1\<rparr>\<rparr>) of
                None \<Rightarrow> None
              | Some s2 \<Rightarrow> Some (Inr (s2\<lparr>allocd_bytes := 0\<rparr>)))"

text \<open>
  \<^verbatim>\<open>void *allocb(size_t sz)\<close>. \<open>pg\<close> is what \<^verbatim>\<open>malloc\<close> returns if the call reaches it.
\<close>

definition allocb :: "nat \<Rightarrow> runtime \<Rightarrow> addr \<Rightarrow> size_t \<Rightarrow> gc_state \<Rightarrow> (addr \<times> gc_state) result" where
  "allocb n rt pg sz s =
     bind_r (if allocd_bytes s > collect_interval s then gc_collect n rt s else Some (Inr s))
       (\<lambda>s1. let s2 = s1\<lparr>allocd_bytes := allocd_bytes s1 + sz\<rparr>
              in if sz > 2048
                 then (let r = alloc_big pg sz (big_objects s2, hp s2)
                       in Some (Inr (fst r, s2\<lparr>big_objects := fst (snd r), hp := snd (snd r)\<rparr>)))
                 else bind_r (pool_alloc pg (pools s2 (nat (szclass sz))) (hp s2))
                        (\<lambda>r. Some (Inr (fst r,
                           s2\<lparr>pools := (pools s2)(nat (szclass sz) := fst (snd r)),
                              hp := snd (snd r)\<rparr>))))"

text \<open>
  \<^verbatim>\<open>void jl_gc_init()\<close> on the initial values of the static variables.
\<close>

definition init_pool :: "nat \<Rightarrow> pool_t" where
  "init_pool i = \<lparr>osize = szc ! i + ptr_sz, pages = NULL, freelist = NULL\<rparr>"

definition jl_gc_init :: "heap \<Rightarrow> gc_state" where
  "jl_gc_init h =
     \<lparr>hp = h, big_objects = NULL,
      pools = (\<lambda>i. if i < N_POOLS then init_pool i else \<lparr>osize = 0, pages = NULL, freelist = NULL\<rparr>),
      allocd_bytes = 0, collect_interval = 8192 * 1024, collections = 0\<rparr>"

subsection \<open>Lists in memory\<close>

text \<open>
  The notions the statements below are written in. \<open>cells_from osz lim v\<close> are the
  addresses a cell loop \<^verbatim>\<open>while ((char*)v <= lim) { ...; v += osz; }\<close> visits and
  \<open>page_cells osz pg\<close> the cells of the page \<open>pg\<close> written out. \<open>lseg m a cs b\<close> says that
  following the link words of \<open>m\<close> from \<open>a\<close> passes through exactly \<open>cs\<close> and arrives at
  \<open>b\<close>; \<open>linked m cs\<close> that each element of \<open>cs\<close> links to the next. \<open>cursor acc\<close> is the
  value of \<^verbatim>\<open>pfl\<close> after the cells \<open>acc\<close> have been appended.
\<close>

function cells_from :: "nat \<Rightarrow> addr \<Rightarrow> addr \<Rightarrow> addr list" where
  "cells_from osz lim v = (if osz = 0 \<or> lim < v then [] else v # cells_from osz lim (v + osz))"
  by pat_completeness auto
termination
  by (relation "measure (\<lambda>(osz, lim, v). Suc lim - v)") auto

declare cells_from.simps [simp del]

definition page_cells :: "nat \<Rightarrow> addr \<Rightarrow> addr list" where
  "page_cells osz pg = map (\<lambda>i. pg + ptr_sz + i * osz) [0..<(GC_PAGE_SZ - ptr_sz) div osz]"

fun thread :: "pfl_ref \<Rightarrow> addr list \<Rightarrow> pool_t \<times> memory \<Rightarrow> pfl_ref \<times> pool_t \<times> memory" where
  "thread pfl [] pm = (pfl, pm)"
| "thread pfl (c # cs) pm = thread (Cell_next c) cs (set_pfl pfl c pm)"

fun lseg :: "memory \<Rightarrow> addr \<Rightarrow> addr list \<Rightarrow> addr \<Rightarrow> bool" where
  "lseg m a [] b = (a = b)"
| "lseg m a (c # cs) b = (a = c \<and> lseg m (m c) cs b)"

fun linked :: "memory \<Rightarrow> addr list \<Rightarrow> bool" where
  "linked m (a # b # cs) = (m a = b \<and> linked m (b # cs))"
| "linked m cs = True"

definition cursor :: "addr list \<Rightarrow> pfl_ref" where
  "cursor acc = (if acc = [] then Pool_freelist else Cell_next (last acc))"

definition fl_inv :: "pool_t \<times> memory \<Rightarrow> addr list \<Rightarrow> bool" where
  "fl_inv pm acc \<longleftrightarrow> linked (snd pm) acc \<and> (acc \<noteq> [] \<longrightarrow> freelist (fst pm) = hd acc)"

text \<open>A heap with nothing in it, for concrete runs.\<close>

definition heap0 :: heap where
  "heap0 = \<lparr>mem = (\<lambda>a. 0), os_log = []\<rparr>"

text \<open>
  A runtime whose values are all plain bits, and the state after \<^verbatim>\<open>jl_gc_init\<close> with the
  allocation counter just above the collection interval.
\<close>

definition runtime0 :: runtime where
  "runtime0 =
     \<lparr>objs = (\<lambda>a. Bits),
      methlists = (\<lambda>a. \<lparr>ml_sig = 0, ml_tvars = 0, ml_func = 0, ml_next = 0\<rparr>),
      bindings_table = (\<lambda>a. []), bindings = (\<lambda>a. \<lparr>b_value = 0, b_type = 0\<rparr>),
      HT_NOTFOUND = 1,
      jl_root_task = 64, jl_current_task = 64, jl_system_module = 128, jl_user_module = 192,
      jl_methtable_type = 256, jl_bottom_func = 320, jl_any_func = 384,
      jl_null = 448, jl_true = 512, jl_false = 576,
      jl_mark_type_cache = (\<lambda>m. Some (Inr m))\<rparr>"

definition state_due :: gc_state where
  "state_due = (jl_gc_init heap0)\<lparr>allocd_bytes := 8388609\<rparr>"

subsection \<open>What a sweep leaves\<close>

text \<open>
  A cell goes onto the free list when its header is free-encoded or not marked
  (\<open>sweepable\<close>). A page is unlinked when every cell of it is free-encoded (\<open>all_free\<close>).
  \<open>surviving\<close> are the pages a sweep keeps and \<open>swept_freelist\<close> the cells it threads, in
  order. \<open>pages_separate\<close> says that the pages of a list do not overlap. \<open>pcursor\<close>,
  \<open>ppg_val\<close>, \<open>pl_inv\<close> and \<open>outer_inv\<close> describe the state at the head of the page loop:
  the pages kept so far \<open>sv\<close>, the cells threaded so far \<open>acc\<close> and the pages to come.
\<close>

definition sweepable :: "nat \<Rightarrow> bool" where
  "sweepable w \<longleftrightarrow> gcv_isfree w \<or> \<not> marked w"

definition pcursor :: "addr list \<Rightarrow> ppg_ref" where
  "pcursor sv = (if sv = [] then Pool_pages else Page_next (last sv))"

definition pl_inv :: "pool_t \<times> memory \<Rightarrow> addr list \<Rightarrow> bool" where
  "pl_inv pm sv \<longleftrightarrow> linked (snd pm) sv \<and> (sv \<noteq> [] \<longrightarrow> pages (fst pm) = hd sv)"

definition ppg_val :: "pool_t \<times> memory \<Rightarrow> addr list \<Rightarrow> addr" where
  "ppg_val pm sv = (if sv = [] then pages (fst pm) else snd pm (last sv))"

definition all_free :: "nat \<Rightarrow> memory \<Rightarrow> addr \<Rightarrow> bool" where
  "all_free osz m pg \<longleftrightarrow> list_all (\<lambda>v. gcv_isfree (m v)) (page_cells osz pg)"

definition page_sweepable :: "nat \<Rightarrow> memory \<Rightarrow> addr \<Rightarrow> addr list" where
  "page_sweepable osz m pg = filter (\<lambda>v. sweepable (m v)) (page_cells osz pg)"

definition surviving :: "nat \<Rightarrow> memory \<Rightarrow> addr list \<Rightarrow> addr list" where
  "surviving osz m pgs = filter (\<lambda>pg. \<not> all_free osz m pg) pgs"

definition swept_freelist :: "nat \<Rightarrow> memory \<Rightarrow> addr list \<Rightarrow> addr list" where
  "swept_freelist osz m pgs = concat (map (page_sweepable osz m) (surviving osz m pgs))"

definition outer_inv ::
  "nat \<Rightarrow> pool_t \<times> memory \<Rightarrow> addr \<Rightarrow> addr list \<Rightarrow> addr list \<Rightarrow> addr list \<Rightarrow> bool" where
  "outer_inv osz pm pg sv acc pgs \<longleftrightarrow>
     osize (fst pm) = osz \<and> fl_inv pm acc \<and> pl_inv pm sv \<and>
     ppg_val pm sv = pg \<and>
     lseg (snd pm) pg pgs NULL \<and> NULL \<notin> set pgs \<and>
     distinct (sv @ acc @ pgs @ concat (map (page_cells osz) pgs))"

fun pages_separate :: "addr list \<Rightarrow> bool" where
  "pages_separate [] = True"
| "pages_separate (pg # pgs) =
     ((\<forall>q\<in>set pgs. pg + GC_PAGE_SZ \<le> q \<or> q + GC_PAGE_SZ \<le> pg) \<and> pages_separate pgs)"

text \<open>
  A pool of 4096-byte cells with two pages: every cell of the page at 16384 is
  free-encoded; the page at 32768 holds a marked cell, an unmarked one and a free one.
\<close>

definition pool1 :: pool_t where
  "pool1 = \<lparr>osize = 4096, pages = 16384, freelist = NULL\<rparr>"

definition heap1 :: heap where
  "heap1 = \<lparr>mem = (\<lambda>a. 0)(16384 := 32768, 16392 := 8, 20488 := 8, 24584 := 8,
                             32776 := 1, 40968 := 8),
            os_log = []\<rparr>"

subsection \<open>What a call of the marker does\<close>

text \<open>
  The body of \<open>gc_markval\<close> for a value that is not null and not yet marked, read as the
  list of things it does after setting the mark bit, in order (\<open>trace\<close>): a call of
  \<^verbatim>\<open>GC_Markval\<close>, a \<^verbatim>\<open>gc_setmark\<close>, a call of \<^verbatim>\<open>gc_mark_methlist\<close>, or a failed assertion.
  \<open>run_actions\<close> performs such a list. \<open>gc_markval_trace\<close> below proves that this reading
  is the function.
\<close>

datatype mark_action = Mark addr | Setmark addr | Methlist addr | Abort

fun run_actions :: "nat \<Rightarrow> runtime \<Rightarrow> mark_action list \<Rightarrow> memory \<Rightarrow> memory result" where
  "run_actions n rt [] m = Some (Inr m)"
| "run_actions n rt (Mark x # as) m = bind_r (gc_markval n rt x m) (run_actions n rt as)"
| "run_actions n rt (Setmark x # as) m = run_actions n rt as (gc_setmark x m)"
| "run_actions n rt (Methlist x # as) m = bind_r (gc_mark_methlist n rt x m) (run_actions n rt as)"
| "run_actions n rt (Abort # as) m = Some (Inl Assertion_failed)"

definition trace :: "runtime \<Rightarrow> addr \<Rightarrow> mark_action list" where
  "trace rt v =
     (case objs rt v of
        Bits \<Rightarrow> []
      | Array dims data space elty_is_bits elems \<Rightarrow>
          Mark dims # (if data \<noteq> space then [Setmark data] else [])
            @ (if \<not> elty_is_bits then map Mark (non_null elems) else [])
      | Tuple elems \<Rightarrow> map Mark (non_null elems)
      | Lambda_info ast sparams tfunc roots specTypes unspecialized \<Rightarrow>
          map Mark ([ast, sparams, tfunc, roots, specTypes] @ non_null [unspecialized])
      | Func env linfo \<Rightarrow> map Mark (non_null [env, linfo])
      | Typename primary \<Rightarrow> map Mark (non_null [primary])
      | Tag_type env linfo name super parameters \<Rightarrow>
          (if env \<noteq> NULL \<or> linfo \<noteq> NULL then [Abort]
           else map Mark [name, super, parameters])
      | Struct_type env linfo name super parameters names types ctor_factory instance \<Rightarrow>
          map Mark (non_null [env, linfo] @ [name, super, parameters, names, types]
            @ non_null [ctor_factory] @ non_null [instance])
      | Bits_type env linfo name super parameters bnbits \<Rightarrow>
          (if env \<noteq> NULL \<or> linfo \<noteq> NULL then [Abort]
           else map Mark [name, super, parameters, bnbits])
      | Mtable defs cache cache_1arg \<Rightarrow>
          Methlist defs # Methlist cache # map Mark (non_null cache_1arg)
      | Task on_exit start result eh_task \<Rightarrow> map Mark [on_exit, start, result, eh_task]
      | Other type_is_struct flds \<Rightarrow>
          (if \<not> type_is_struct then [Abort] else map Mark flds))"

text \<open>
  The values that hold references and are not marked yet; memories whose mark bits only
  grow; and method lists that end in \<^verbatim>\<open>NULL\<close>.
\<close>

definition unmarked :: "runtime \<Rightarrow> memory \<Rightarrow> addr set" where
  "unmarked rt m = {v. objs rt v \<noteq> Bits \<and> \<not> gc_marked m v}"

definition marks_grow :: "memory \<Rightarrow> memory \<Rightarrow> bool" where
  "marks_grow m m' \<longleftrightarrow> (\<forall>x. gc_marked m x \<longrightarrow> gc_marked m' x)"

definition ml_terminates :: "runtime \<Rightarrow> addr \<Rightarrow> bool" where
  "ml_terminates rt ml \<longleftrightarrow> (\<exists>k. ((\<lambda>a. ml_next (methlists rt a)) ^^ k) ml = NULL)"

text \<open>
  Two heaps: one with a cycle of two tuples and a method table whose list has one node,
  and one with a method table whose list links back to itself.
\<close>

definition runtime_cycle :: runtime where
  "runtime_cycle = runtime0
     \<lparr>objs := (\<lambda>a. Bits)(64 := Tuple [128], 128 := Tuple [64], 192 := Mtable 256 NULL [64]),
      methlists := (\<lambda>a. \<lparr>ml_sig = 64, ml_tvars = 128, ml_func = 64, ml_next = NULL\<rparr>)\<rparr>"

definition runtime_looping_methlist :: runtime where
  "runtime_looping_methlist = runtime0
     \<lparr>objs := (\<lambda>a. Bits)(64 := Mtable 128 NULL []),
      methlists := (\<lambda>a. \<lparr>ml_sig = 256, ml_tvars = 256, ml_func = 256, ml_next = 128\<rparr>)\<rparr>"

section \<open>Properties\<close>

subsection \<open>The size class of a request\<close>

lemma szc_nth:
  "szc ! 0 = 8" "szc ! 1 = 16" "szc ! Suc 0 = 16" "szc ! 2 = 24" "szc ! 3 = 32" "szc ! 4 = 48"
  "szc ! 5 = 64" "szc ! 6 = 96" "szc ! 7 = 128" "szc ! 8 = 192" "szc ! 9 = 256" "szc ! 10 = 384"
  "szc ! 11 = 512" "szc ! 12 = 768" "szc ! 13 = 1024" "szc ! 14 = 1536" "szc ! 15 = 2048"
  by (simp_all add: szc_def)

lemma szclass_interval:
  assumes k: "k < 16"
    and lo: "k = 0 \<or> szc ! (k - 1) < unat sz"
    and hi: "unat sz \<le> szc ! k"
  shows "szclass sz = int k"
proof -
  from k have "k = 0 \<or> k = 1 \<or> k = 2 \<or> k = 3 \<or> k = 4 \<or> k = 5 \<or> k = 6 \<or> k = 7
    \<or> k = 8 \<or> k = 9 \<or> k = 10 \<or> k = 11 \<or> k = 12 \<or> k = 13 \<or> k = 14 \<or> k = 15"
    by presburger
  then consider "k = 0" | "k = 1" | "k = 2" | "k = 3" | "k = 4" | "k = 5" | "k = 6"
    | "k = 7" | "k = 8" | "k = 9" | "k = 10" | "k = 11" | "k = 12" | "k = 13" | "k = 14"
    | "k = 15"
    by blast
  then show ?thesis
    using lo hi
    by cases (simp_all add: szc_nth szclass_def word_le_nat_alt)
qed

text \<open>
  C5. For a request of 1 to 2048 bytes \<open>szclass\<close> returns the least index \<open>k\<close> of
  \<open>0..15\<close> whose class size is at least the request: \<open>k\<close> is in range, the request fits
  class \<open>k\<close>, and it fits no class below \<open>k\<close>. The spot checks of the specification hold.
\<close>

theorem szclass_least_class:
  assumes "1 \<le> sz" and "sz \<le> 2048"
  shows "0 \<le> szclass sz \<and> nat (szclass sz) < 16 \<and> unat sz \<le> szc ! nat (szclass sz) \<and>
    (\<forall>j < nat (szclass sz). szc ! j < unat sz) \<and>
    szclass 1 = 0 \<and> szclass 8 = 0 \<and> szclass 9 = 1 \<and> szclass 16 = 1 \<and> szclass 24 = 2 \<and>
    szclass 129 = 8 \<and> szclass 2048 = 15"
proof -
  define k where "k = (LEAST k. unat sz \<le> szc ! k)"
  from assms(2) have top: "unat sz \<le> szc ! 15"
    by (simp add: szc_nth word_le_nat_alt)
  then have hi: "unat sz \<le> szc ! k"
    unfolding k_def by (rule LeastI)
  from top have "k \<le> 15"
    unfolding k_def by (rule Least_le)
  then have k16: "k < 16" by simp
  have least: "\<not> unat sz \<le> szc ! j" if "j < k" for j
    using that not_less_Least unfolding k_def by blast
  then have lo: "k = 0 \<or> szc ! (k - 1) < unat sz"
    by (cases k) (auto simp: not_le)
  from szclass_interval [OF k16 lo hi] have "szclass sz = int k" .
  then have general: "0 \<le> szclass sz \<and> nat (szclass sz) < 16 \<and>
      unat sz \<le> szc ! nat (szclass sz) \<and> (\<forall>j < nat (szclass sz). szc ! j < unat sz)"
    using k16 hi least by (auto simp: not_le)
  have spots: "szclass 1 = 0 \<and> szclass 8 = 0 \<and> szclass 9 = 1 \<and> szclass 16 = 1 \<and>
      szclass 24 = 2 \<and> szclass 129 = 8 \<and> szclass 2048 = 15"
    by (simp add: szclass_def)
  from general spots show ?thesis by simp
qed

theorem szclass_least_class_witness:
  "(1 :: size_t) \<le> 129 \<and> (129 :: size_t) \<le> 2048 \<and>
   0 \<le> szclass 129 \<and> nat (szclass 129) < 16 \<and> unat (129 :: size_t) \<le> szc ! nat (szclass 129) \<and>
   szc ! (nat (szclass 129) - 1) < unat (129 :: size_t)"
  using szclass_least_class [of 129] by (simp add: szc_nth)

text \<open>
  C10. \<open>szclass\<close> is a function of its argument alone, defined on every 64-bit request
  size; on every size above 1536, so on every size above 2048 as well, it returns 15.
\<close>

theorem szclass_above_1536:
  "1536 < sz \<Longrightarrow> szclass sz = 15"
  by (simp add: szclass_def word_le_nat_alt word_less_nat_alt)

theorem szclass_above_1536_witness:
  "(1536 :: size_t) < 4096 \<and> szclass 4096 = 15 \<and>
   (1536 :: size_t) < 18446744073709551615 \<and> szclass 18446744073709551615 = 15"
  using szclass_above_1536 [of 4096] szclass_above_1536 [of 18446744073709551615] by simp

subsection \<open>Cells of a page and lists in memory\<close>

lemma osize_set_pfl [simp]: "osize (fst (set_pfl pfl v pm)) = osize (fst pm)"
  by (simp add: set_pfl_def split: pfl_ref.split)

lemma pages_set_pfl [simp]: "pages (fst (set_pfl pfl v pm)) = pages (fst pm)"
  by (simp add: set_pfl_def split: pfl_ref.split)

lemma add_page_loop_thread:
  "osize (fst pm) = osz \<Longrightarrow> 1 \<le> osz \<Longrightarrow>
   add_page_loop lim v pfl pm = Some (thread pfl (cells_from osz lim v) pm)"
proof (induction osz lim v arbitrary: pfl pm rule: cells_from.induct)
  case (1 osz lim v)
  show ?case
  proof (cases "v \<le> lim")
    case True
    let ?pm = "set_pfl pfl v pm"
    have os: "osize (fst ?pm) = osz"
      using "1.prems" by simp
    have "add_page_loop lim v pfl pm = add_page_loop lim (v + osz) (Cell_next v) ?pm"
      using True "1.prems"(1) by (subst add_page_loop.simps) (simp add: add_page_body_def Let_def)
    also have "\<dots> = Some (thread (Cell_next v) (cells_from osz lim (v + osz)) ?pm)"
      using True "1.prems"(2) by (intro "1.IH" os) auto
    also have "\<dots> = Some (thread pfl (cells_from osz lim v) pm)"
      using True "1.prems"(2) by (subst (2) cells_from.simps) simp
    finally show ?thesis .
  next
    case False
    then show ?thesis
      by (subst add_page_loop.simps, subst cells_from.simps) simp
  qed
qed

lemma cells_from_map:
  "1 \<le> osz \<Longrightarrow> cells_from osz lim v =
     map (\<lambda>i. v + i * osz) [0..<(if v \<le> lim then (lim - v) div osz + 1 else 0)]"
proof (induction osz lim v rule: cells_from.induct)
  case (1 osz lim v)
  show ?case
  proof (cases "v \<le> lim")
    case False
    then show ?thesis by (subst cells_from.simps) simp
  next
    case True
    note IH = "1.IH" [OF _ "1.prems"]
    show ?thesis
    proof (cases "v + osz \<le> lim")
      case True
      then have "lim - v = (lim - (v + osz)) + osz"
        by arith
      then have "(lim - v) div osz = (lim - (v + osz)) div osz + 1"
        using "1.prems" by (metis div_add_self2 not_one_le_zero)
      then have k: "(lim - v) div osz = Suc ((lim - (v + osz)) div osz)"
        by simp
      show ?thesis
        apply (subst cells_from.simps)
        using True \<open>v \<le> lim\<close> "1.prems" IH
        apply (simp add: k upt_rec [of 0] map_Suc_upt [symmetric] del: upt_Suc)
        done
    next
      case False
      then have "(lim - v) div osz = 0" using True by simp
      then show ?thesis
        apply (subst cells_from.simps)
        using False True "1.prems" IH by simp
    qed
  qed
qed


lemma page_cells_eq:
  assumes "1 \<le> osz"
  shows "cells_from osz (pg + GC_PAGE_SZ - osz) (pg + ptr_sz) = page_cells osz pg"
proof (cases "osz \<le> GC_PAGE_SZ - ptr_sz")
  case True
  then have "GC_PAGE_SZ - ptr_sz = (GC_PAGE_SZ - ptr_sz - osz) + osz"
    by simp
  then have "(GC_PAGE_SZ - ptr_sz) div osz = (GC_PAGE_SZ - ptr_sz - osz) div osz + 1"
    using assms by (metis div_add_self2 not_one_le_zero)
  moreover have "pg + GC_PAGE_SZ - osz - (pg + ptr_sz) = GC_PAGE_SZ - ptr_sz - osz"
    using True by (simp add: GC_PAGE_SZ_def ptr_sz_def)
  moreover have "pg + ptr_sz \<le> pg + GC_PAGE_SZ - osz"
    using True by (simp add: GC_PAGE_SZ_def ptr_sz_def)
  ultimately show ?thesis
    using assms by (simp add: cells_from_map page_cells_def)
next
  case False
  then have "(GC_PAGE_SZ - ptr_sz) div osz = 0"
    by simp
  moreover have "\<not> pg + ptr_sz \<le> pg + GC_PAGE_SZ - osz"
    using False by (simp add: GC_PAGE_SZ_def ptr_sz_def)
  ultimately show ?thesis
    using assms by (simp add: cells_from_map page_cells_def)
qed


lemma linked_append_one:
  "linked m acc \<Longrightarrow> distinct acc \<Longrightarrow> acc \<noteq> [] \<Longrightarrow> linked (m(last acc := c)) (acc @ [c])"
proof (induction m acc rule: linked.induct)
  case (1 m a b cs)
  then have "a \<noteq> last (b # cs)"
    by (metis distinct.simps(2) last_in_set list.distinct(1))
  with 1 show ?case by simp
qed simp_all

lemma linked_upd_last:
  "linked m acc \<Longrightarrow> distinct acc \<Longrightarrow> linked (m(last acc := x)) acc"
proof (induction m acc rule: linked.induct)
  case (1 m a b cs)
  then have "a \<noteq> last (b # cs)"
    by (metis distinct.simps(2) last_in_set list.distinct(1))
  with 1 show ?case by simp
qed simp_all

lemma linked_upd_other:
  "a \<notin> set cs \<Longrightarrow> linked (m(a := x)) cs = linked m cs"
  by (induction m cs rule: linked.induct) auto

lemma linked_cong:
  "(\<And>a. a \<in> set (butlast cs) \<Longrightarrow> m' a = m a) \<Longrightarrow> linked m' cs = linked m cs"
  by (induction m cs rule: linked.induct) auto

lemma linked_prefix: "linked m (xs @ ys) \<Longrightarrow> linked m xs"
proof (induction m xs rule: linked.induct)
  case (1 m a b cs)
  then show ?case by simp
qed simp_all

lemma lseg_linked:
  "lseg m a cs b \<longleftrightarrow> (if cs = [] then a = b else a = hd cs \<and> linked m cs \<and> m (last cs) = b)"
proof (induction cs arbitrary: a)
  case Nil
  show ?case by simp
next
  case (Cons c cs)
  show ?case
  proof (cases cs)
    case Nil
    then show ?thesis by simp
  next
    case (Cons d ds)
    have "lseg m a (c # cs) b \<longleftrightarrow> a = c \<and> lseg m (m c) cs b"
      by simp
    also have "\<dots> \<longleftrightarrow> a = c \<and> m c = d \<and> linked m cs \<and> m (last cs) = b"
      unfolding Cons.IH [of "m c"] using Cons by simp
    finally show ?thesis
      using Cons by simp
  qed
qed

lemma lseg_upd_other:
  "a \<notin> set cs \<Longrightarrow> lseg (m(a := x)) s cs b = lseg m s cs b"
  by (induction cs arbitrary: s) auto

lemma fl_inv_append:
  assumes "fl_inv pm acc" "distinct acc" "c \<notin> set acc"
  shows "fl_inv (set_pfl (cursor acc) c pm) (acc @ [c])"
proof (cases "acc = []")
  case True
  then show ?thesis
    by (simp add: fl_inv_def cursor_def set_pfl_def)
next
  case False
  then show ?thesis
    using assms linked_append_one [of "snd pm" acc c]
    by (simp add: fl_inv_def cursor_def set_pfl_def)
qed

lemma set_pfl_frame:
  "a \<notin> set acc \<Longrightarrow> snd (set_pfl (cursor acc) c pm) a = snd pm a"
  by (auto simp: cursor_def set_pfl_def)

lemma cursor_snoc [simp]: "cursor (acc @ [c]) = Cell_next c"
  by (simp add: cursor_def)

lemma fl_inv_close:
  assumes "fl_inv pm acc" "distinct acc"
  shows "lseg (snd (set_pfl (cursor acc) x pm)) (freelist (fst (set_pfl (cursor acc) x pm))) acc x"
proof (cases "acc = []")
  case True
  then show ?thesis
    by (simp add: cursor_def set_pfl_def)
next
  case False
  then show ?thesis
    using assms linked_upd_last [of "snd pm" acc x]
    by (simp add: fl_inv_def cursor_def set_pfl_def lseg_linked)
qed

lemma thread_inv:
  assumes "fl_inv pm acc" "distinct (acc @ cs)"
  shows "fst (thread (cursor acc) cs pm) = cursor (acc @ cs) \<and>
         fl_inv (snd (thread (cursor acc) cs pm)) (acc @ cs) \<and>
         osize (fst (snd (thread (cursor acc) cs pm))) = osize (fst pm) \<and>
         pages (fst (snd (thread (cursor acc) cs pm))) = pages (fst pm)"
  using assms
proof (induction cs arbitrary: acc pm)
  case Nil
  then show ?case by simp
next
  case (Cons c cs)
  have inv: "fl_inv (set_pfl (cursor acc) c pm) (acc @ [c])"
    using Cons.prems by (intro fl_inv_append) auto
  have "distinct ((acc @ [c]) @ cs)"
    using Cons.prems by simp
  from Cons.IH [OF inv this] show ?case
    by simp
qed

lemma page_cells_distinct: "1 \<le> osz \<Longrightarrow> distinct (page_cells osz pg)"
  by (auto simp: page_cells_def distinct_map intro!: inj_onI)

lemma page_cells_gt: "v \<in> set (page_cells osz pg) \<Longrightarrow> pg + ptr_sz \<le> v"
  by (auto simp: page_cells_def)

lemma page_cells_sorted: "1 \<le> osz \<Longrightarrow> sorted_wrt (<) (page_cells osz pg)"
  by (auto simp: page_cells_def sorted_wrt_map sorted_wrt_upt intro!: sorted_wrt_mono_rel [of _ "(<)"])

lemma add_page_Some:
  assumes "1 \<le> osize p"
  shows "\<exists>p' h'. add_page pg p h = Some (p', h') \<and>
           lseg (mem h') (freelist p') (page_cells (osize p) pg) (freelist p) \<and>
           osize p' = osize p \<and> pages p' = pages p \<and> mem h' pg = pages p \<and>
           os_log h' = os_log h @ [Malloc (of_nat GC_PAGE_SZ) pg]"
proof -
  let ?cs = "page_cells (osize p) pg"
  let ?m1 = "mem (os_malloc (of_nat GC_PAGE_SZ) pg h)"
  let ?t = "thread Pool_freelist ?cs (p, ?m1)"
  have loop: "add_page_loop (pg + GC_PAGE_SZ - osize p) (pg + ptr_sz) Pool_freelist (p, ?m1) = Some ?t"
    using assms add_page_loop_thread [of "(p, ?m1)" "osize p"] by (simp add: page_cells_eq)
  have d: "distinct ([] @ ?cs)"
    using assms by (simp add: page_cells_distinct)
  have i0: "fl_inv (p, ?m1) []"
    by (simp add: fl_inv_def)
  from thread_inv [OF i0 d]
  have t: "fst ?t = cursor ?cs" "fl_inv (snd ?t) ?cs" "osize (fst (snd ?t)) = osize p"
    "pages (fst (snd ?t)) = pages p"
    by (simp_all add: cursor_def)
  let ?pm1 = "set_pfl (cursor ?cs) (freelist p) (snd ?t)"
  have seg: "lseg (snd ?pm1) (freelist (fst ?pm1)) ?cs (freelist p)"
    using t(2) d by (intro fl_inv_close) simp_all
  have pgn: "pg \<notin> set ?cs"
    using page_cells_gt [of pg "osize p" pg] by (auto simp: ptr_sz_def)
  have pm1: "osize (fst ?pm1) = osize p" "pages (fst ?pm1) = pages p"
    using t by simp_all
  show ?thesis
    unfolding add_page_def Let_def loop
    using seg pgn pm1 t(1)
    by (cases ?t) (auto simp: lseg_upd_other os_malloc_def)
qed


subsection \<open>Adding a page\<close>

text \<open>
  C9. For a pool with a cell size from \<^verbatim>\<open>sizeof(void*)\<close> to \<^verbatim>\<open>GC_PAGE_SZ\<close> and a page that
  is not null \<open>add_page\<close> returns, and it has
  threaded the cells \<open>pg + 8 + i * osize\<close> for \<open>i < (16384 - 8) div osize\<close> and no others
  onto the free list, in ascending address order: the free list starts at the first of
  them, each links to the next, and the last links to the free list the pool had before
  the call.
\<close>

theorem add_page_threads_cells:
  assumes "ptr_sz \<le> osize p" and "osize p \<le> GC_PAGE_SZ" and "pg \<noteq> NULL"
  shows "\<exists>p' h'. add_page pg p h = Some (p', h') \<and>
           (let n = (GC_PAGE_SZ - ptr_sz) div osize p;
                cs = map (\<lambda>i. pg + ptr_sz + i * osize p) [0..<n]
            in GC_PAGE_SZ = 16384 \<and> ptr_sz = 8 \<and> length cs = n \<and> sorted_wrt (<) cs \<and>
               lseg (mem h') (freelist p') cs (freelist p))"
proof -
  have one: "1 \<le> osize p"
    using assms(1) by (simp add: ptr_sz_def)
  from add_page_Some [OF one, of pg h] obtain p' h' where
    r: "add_page pg p h = Some (p', h')"
      "lseg (mem h') (freelist p') (page_cells (osize p) pg) (freelist p)"
    by blast
  have "sorted_wrt (<) (page_cells (osize p) pg)"
    using one by (rule page_cells_sorted)
  with r show ?thesis
    by (simp add: page_cells_def Let_def GC_PAGE_SZ_def ptr_sz_def)
qed

theorem add_page_threads_cells_witness:
  "ptr_sz \<le> osize (init_pool 15) \<and> osize (init_pool 15) \<le> GC_PAGE_SZ \<and> (16384 :: addr) \<noteq> NULL \<and>
   (\<exists>p' h'. add_page 16384 (init_pool 15) heap0 = Some (p', h') \<and>
      (let n = (GC_PAGE_SZ - ptr_sz) div osize (init_pool 15);
           cs = map (\<lambda>i. 16384 + ptr_sz + i * osize (init_pool 15)) [0..<n]
       in GC_PAGE_SZ = 16384 \<and> ptr_sz = 8 \<and> length cs = n \<and> sorted_wrt (<) cs \<and>
          lseg (mem h') (freelist p') cs (freelist (init_pool 15))))"
proof -
  have h: "ptr_sz \<le> osize (init_pool 15)" "osize (init_pool 15) \<le> GC_PAGE_SZ"
    "(16384 :: addr) \<noteq> NULL"
    by (simp_all add: init_pool_def ptr_sz_def szc_nth GC_PAGE_SZ_def)
  from add_page_threads_cells [OF h, of heap0] h show ?thesis
    by blast
qed

text \<open>
  C1. \<open>add_page\<close> stores the old value of \<^verbatim>\<open>p->pages\<close> in the link of the new page, and
  then assigns that link, not the page, to \<^verbatim>\<open>p->pages\<close>: on the last pool as \<^verbatim>\<open>jl_gc_init\<close>
  leaves it, with the new page at 16384, the page list is still empty after the call.
\<close>

theorem add_page_does_not_link_page:
  "\<exists>p' h'. add_page 16384 (init_pool 15) heap0 = Some (p', h') \<and>
     mem h' 16384 = pages (init_pool 15) \<and> pages p' = NULL \<and> pages p' \<noteq> 16384"
proof -
  have "1 \<le> osize (init_pool 15)"
    by (simp add: init_pool_def ptr_sz_def)
  from add_page_Some [OF this, of 16384 heap0] show ?thesis
    by (auto simp: init_pool_def)
qed

subsection \<open>The allocation entry point\<close>

lemma bind_r_Inr:
  "bind_r r f = Some (Inr y) \<longleftrightarrow> (\<exists>x. r = Some (Inr x) \<and> f x = Some (Inr y))"
  by (auto simp: bind_r_def split: option.splits sum.splits)

lemma sweep_pools_fields:
  "sweep_pools is s = Some s' \<Longrightarrow>
     collections s' = collections s \<and> allocd_bytes s' = allocd_bytes s \<and>
     collect_interval s' = collect_interval s"
proof (induction "is" arbitrary: s)
  case Nil
  then show ?case by simp
next
  case (Cons i "is")
  from Cons.prems obtain p1 h1 where
    "sweep_pools is (s\<lparr>pools := (pools s)(i := p1), hp := h1\<rparr>) = Some s'"
    by (auto split: option.splits)
  from Cons.IH [OF this] show ?case by simp
qed

lemma gc_sweep_fields:
  "gc_sweep s = Some s' \<Longrightarrow>
     collections s' = collections s \<and> allocd_bytes s' = allocd_bytes s \<and>
     collect_interval s' = collect_interval s"
  by (auto simp: gc_sweep_def split: option.splits dest!: sweep_pools_fields)

lemma gc_collect_fields:
  assumes "gc_collect n rt s = Some (Inr s')"
  shows "allocd_bytes s' = 0 \<and> collections s' = collections s + 1 \<and>
     collect_interval s' = collect_interval s"
proof -
  from assms obtain m1 s2 where
    "gc_sweep (s\<lparr>collections := collections s + 1, hp := (hp s)\<lparr>mem := m1\<rparr>\<rparr>) = Some s2"
    and "s' = s2\<lparr>allocd_bytes := 0\<rparr>"
    by (auto simp: gc_collect_def bind_r_Inr split: option.splits)
  then show ?thesis
    using gc_sweep_fields by fastforce
qed

lemma sweep_pool_no_pages:
  "pages p = NULL \<Longrightarrow> sweep_pool p h = Some (p\<lparr>freelist := NULL\<rparr>, h)"
  apply (simp add: sweep_pool_def)
  apply (subst sweep_pool_loop.simps)
  apply (simp add: set_pfl_def)
  done

lemma sweep_big_none: "sweep_big (NULL, h) = Some (NULL, h)"
  unfolding sweep_big_def
  by (subst sweep_big_loop.simps) simp

lemma sweep_pools_no_pages:
  "\<forall>i. pages (pools s i) = NULL \<Longrightarrow> \<exists>s'. sweep_pools is s = Some s'"
proof (induction "is" arbitrary: s)
  case Nil
  show ?case by simp
next
  case (Cons i "is")
  let ?s = "s\<lparr>pools := (pools s)(i := (pools s i)\<lparr>freelist := NULL\<rparr>), hp := hp s\<rparr>"
  have "\<forall>j. pages (pools ?s j) = NULL"
    using Cons.prems by simp
  from Cons.IH [OF this] show ?case
    using Cons.prems by (simp add: sweep_pool_no_pages)
qed

lemma gc_sweep_no_pages:
  "big_objects s = NULL \<Longrightarrow> \<forall>i. pages (pools s i) = NULL \<Longrightarrow> \<exists>s'. gc_sweep s = Some s'"
  using sweep_pools_no_pages [of "s\<lparr>big_objects := NULL, hp := hp s\<rparr>" "[0..<N_POOLS]"]
  by (simp add: gc_sweep_def sweep_big_none)


lemma gc_mark_module_loop_nil: "gc_mark_module_loop n rt [] i m = Some (Inr m)"
  by (subst gc_mark_module_loop.simps) simp

lemma gc_markval_bits:
  "objs rt v = Bits \<Longrightarrow> v \<noteq> NULL \<Longrightarrow> \<exists>m'. gc_markval (Suc n) rt v m = Some (Inr m')"
  by simp

lemma gc_markvals_bits:
  "\<forall>v. objs rt v = Bits \<Longrightarrow> NULL \<notin> set vs \<Longrightarrow>
     \<exists>m'. gc_markvals (Suc n) rt vs m = Some (Inr m')"
proof (induction vs arbitrary: m)
  case Nil
  show ?case by simp
next
  case (Cons v vs)
  then obtain m1 where m1: "gc_markval (Suc n) rt v m = Some (Inr m1)"
    using gc_markval_bits [of rt v n m] by auto
  from Cons obtain m2 where "gc_markvals (Suc n) rt vs m1 = Some (Inr m2)"
    by fastforce
  with m1 show ?case
    by (simp add: bind_r_def del: gc_markval.simps)
qed

lemma gc_mark_runtime0:
  "\<exists>m'. gc_mark (Suc n) runtime0 m = Some (Inr m')"
proof -
  have bits: "\<forall>v. objs runtime0 v = Bits"
    by (simp add: runtime0_def)
  obtain m1 where m1:
    "gc_markvals (Suc n) runtime0 [jl_root_task runtime0, jl_current_task runtime0] m = Some (Inr m1)"
    using gc_markvals_bits [OF bits, of "[jl_root_task runtime0, jl_current_task runtime0]" n m]
    by (auto simp: runtime0_def)
  have md: "gc_mark_module (Suc n) runtime0 a m' = Some (Inr (gc_setmark a m'))" for a m'
    by (simp add: gc_mark_module_def runtime0_def gc_mark_module_loop_nil
        del: gc_mark_module_loop.simps)
  let ?m3 = "gc_setmark (jl_user_module runtime0) (gc_setmark (jl_system_module runtime0) m1)"
  obtain m4 where m4:
    "gc_markvals (Suc n) runtime0
       [jl_methtable_type runtime0, jl_bottom_func runtime0, jl_any_func runtime0,
        jl_null runtime0, jl_true runtime0, jl_false runtime0] ?m3 = Some (Inr m4)"
    using gc_markvals_bits [OF bits, of "[jl_methtable_type runtime0, jl_bottom_func runtime0,
      jl_any_func runtime0, jl_null runtime0, jl_true runtime0, jl_false runtime0]" n ?m3]
    by (auto simp: runtime0_def)
  have "jl_mark_type_cache runtime0 m4 = Some (Inr m4)"
    by (simp add: runtime0_def)
  with m1 md m4 show ?thesis
    unfolding gc_mark_def by (simp add: bind_r_def del: gc_markvals.simps gc_markval.simps)
qed

lemma allocb_collects_and_returns: "\<exists>p s'. allocb (Suc (Suc 0)) runtime0 32768 4096 state_due = Some (Inr (p, s'))"
proof -
  obtain m' where m: "gc_mark (Suc (Suc 0)) runtime0 (mem (hp state_due)) = Some (Inr m')"
    using gc_mark_runtime0 by blast
  let ?s = "state_due\<lparr>collections := collections state_due + 1, hp := (hp state_due)\<lparr>mem := m'\<rparr>\<rparr>"
  have "\<exists>s'. gc_sweep ?s = Some s'"
    by (rule gc_sweep_no_pages) (simp_all add: state_due_def jl_gc_init_def init_pool_def)
  then obtain s2 where "gc_sweep ?s = Some s2" by blast
  with m have "gc_collect (Suc (Suc 0)) runtime0 state_due = Some (Inr (s2\<lparr>allocd_bytes := 0\<rparr>))"
    by (simp add: gc_collect_def bind_r_def)
  moreover have "collect_interval state_due < allocd_bytes state_due"
    by (simp add: state_due_def jl_gc_init_def)
  ultimately show ?thesis
    by (simp add: allocb_def bind_r_def Let_def)
qed

text \<open>
  C3. A call of \<open>allocb\<close> that returns has called \<open>gc_collect\<close> once if \<open>allocd_bytes\<close>
  was above \<open>collect_interval\<close> on entry and not at all otherwise: the test comes before
  the accounting. Afterwards \<open>allocd_bytes\<close> is \<open>sz\<close> if the collection ran and the old
  value plus \<open>sz\<close> (in \<^verbatim>\<open>size_t\<close> arithmetic) if not.
\<close>

theorem allocb_trigger:
  assumes "allocb n rt pg sz s = Some (Inr (p, s'))"
  shows "collections s' = collections s + (if allocd_bytes s > collect_interval s then 1 else 0) \<and>
     allocd_bytes s' = (if allocd_bytes s > collect_interval s then sz else allocd_bytes s + sz)"
proof -
  from assms obtain s1 where
    s1: "(if allocd_bytes s > collect_interval s then gc_collect n rt s else Some (Inr s)) = Some (Inr s1)"
    and rest: "collections s' = collections s1 \<and> allocd_bytes s' = allocd_bytes s1 + sz"
    by (auto simp: allocb_def bind_r_Inr Let_def split: if_splits)
  show ?thesis
  proof (cases "allocd_bytes s > collect_interval s")
    case True
    with s1 have "gc_collect n rt s = Some (Inr s1)" by simp
    from gc_collect_fields [OF this] rest True show ?thesis by simp
  next
    case False
    with s1 rest show ?thesis by simp
  qed
qed

theorem allocb_trigger_witness:
  "(\<exists>p s'. allocb (Suc (Suc 0)) runtime0 32768 4096 state_due = Some (Inr (p, s')) \<and>
      collections s' = collections state_due + 1 \<and> allocd_bytes s' = 4096) \<and>
   (\<exists>p s'. allocb 0 runtime0 32768 4096 (jl_gc_init heap0) = Some (Inr (p, s')) \<and>
      collections s' = collections (jl_gc_init heap0) \<and> allocd_bytes s' = 4096)"
proof -
  from allocb_collects_and_returns obtain p s' where
    r: "allocb (Suc (Suc 0)) runtime0 32768 4096 state_due = Some (Inr (p, s'))"
    by blast
  have due: "collect_interval state_due < allocd_bytes state_due"
    by (simp add: state_due_def jl_gc_init_def)
  have "\<exists>q t'. allocb 0 runtime0 32768 4096 (jl_gc_init heap0) = Some (Inr (q, t'))"
    by (simp add: allocb_def jl_gc_init_def bind_r_def Let_def)
  then obtain q t' where
    r2: "allocb 0 runtime0 32768 4096 (jl_gc_init heap0) = Some (Inr (q, t'))"
    by blast
  have nodue: "\<not> collect_interval (jl_gc_init heap0) < allocd_bytes (jl_gc_init heap0)"
    by (simp add: jl_gc_init_def)
  have zero: "allocd_bytes (jl_gc_init heap0) = 0"
    by (simp add: jl_gc_init_def)
  from allocb_trigger [OF r] due allocb_trigger [OF r2] nodue r r2 zero show ?thesis
    by auto
qed

subsection \<open>When the OS allocator fails\<close>

lemma page_cells_hd:
  assumes "1 \<le> osz" "osz \<le> GC_PAGE_SZ - ptr_sz"
  shows "page_cells osz pg \<noteq> [] \<and> hd (page_cells osz pg) = pg + ptr_sz"
proof -
  from assms have "1 \<le> (GC_PAGE_SZ - ptr_sz) div osz"
    by (simp add: Suc_le_eq div_greater_zero_iff)
  then obtain k where "(GC_PAGE_SZ - ptr_sz) div osz = Suc k"
    by (metis One_nat_def Suc_le_D)
  then show ?thesis
    by (simp add: page_cells_def upt_rec [of 0] del: upt_Suc)
qed

lemma lseg_hd: "lseg m a cs b \<Longrightarrow> cs \<noteq> [] \<Longrightarrow> a = hd cs"
  by (cases cs) simp_all




subsection \<open>The payload of an allocation\<close>

lemma pool_alloc_Inr:
  assumes "pool_alloc pg p h = Some (Inr (v, p2, h2))"
  shows "\<exists>(p1 :: pool_t) h1. v = freelist p1 + ptr_sz \<and> h2 = store (freelist p1) 0 h1"
proof (cases "freelist p = NULL")
  case True
  with assms obtain p1 h1 where "add_page pg p h = Some (p1, h1)"
    by (auto simp: pool_alloc_def split: option.splits)
  with assms True have "v = freelist p1 + ptr_sz \<and> h2 = store (freelist p1) 0 h1"
    by (simp add: pool_alloc_def Let_def split: if_splits)
  then show ?thesis by blast
next
  case False
  with assms have "v = freelist p + ptr_sz \<and> h2 = store (freelist p) 0 h"
    by (simp add: pool_alloc_def Let_def split: if_splits)
  then show ?thesis by blast
qed

lemma allocb_header_zero:
  assumes "allocb n rt pg sz s = Some (Inr (p, s'))"
  shows "p \<noteq> NULL \<and> mem (hp s') (gc_val p) = 0"
proof -
  from assms obtain s1 where
    r: "(let s2 = s1\<lparr>allocd_bytes := allocd_bytes s1 + sz\<rparr>
         in if sz > 2048
            then (let r = alloc_big pg sz (big_objects s2, hp s2)
                  in Some (Inr (fst r, s2\<lparr>big_objects := fst (snd r), hp := snd (snd r)\<rparr>)))
            else bind_r (pool_alloc pg (pools s2 (nat (szclass sz))) (hp s2))
                   (\<lambda>r. Some (Inr (fst r,
                      s2\<lparr>pools := (pools s2)(nat (szclass sz) := fst (snd r)),
                         hp := snd (snd r)\<rparr>)))) = Some (Inr (p, s'))"
    unfolding allocb_def bind_r_Inr by blast
  show ?thesis
  proof (cases "sz > 2048")
    case True
    with r show ?thesis
      by (auto simp: Let_def alloc_big_def store_def gc_val_def ptr_sz_def)
  next
    case False
    with r obtain p2 h2 where
      "pool_alloc pg (pools s1 (nat (szclass sz))) (hp s1) = Some (Inr (p, p2, h2))"
      and "hp s' = h2"
      by (auto simp: Let_def bind_r_Inr)
    then obtain p1 :: pool_t and h1 where "p = freelist p1 + ptr_sz" and "hp s' = store (freelist p1) 0 h1"
      using pool_alloc_Inr by blast
    then show ?thesis
      by (simp add: store_def gc_val_def ptr_sz_def)
  qed
qed

text \<open>
  C8. Every call of \<open>allocb\<close> that returns gives a non-null payload whose header word is
  zero (\<open>allocb_header_zero\<close>). The size of a big block is computed as
  \<^verbatim>\<open>sz + 2*sizeof(void*)\<close> in \<^verbatim>\<open>size_t\<close> and wraps around: for a request of \<open>2^64 - 16\<close> bytes
  \<^verbatim>\<open>malloc\<close> is asked for 0 bytes, and the payload pointer returned lies 16 bytes past
  the start of that block.
\<close>

theorem alloc_big_size_wraps:
  "\<exists>p s'. allocb 0 runtime0 32768 18446744073709551600 (jl_gc_init heap0) = Some (Inr (p, s')) \<and>
     p = 32768 + 16 \<and> os_log (hp s') = [Malloc 0 32768] \<and> big_objects s' = 32768"
  by (simp add: allocb_def jl_gc_init_def bind_r_def Let_def alloc_big_def os_malloc_def
      store_def heap0_def ptr_sz_def)

subsection \<open>Sweeping a pool\<close>

lemma sweep_cell_osize [simp]:
  "osize (fst (snd (snd (sweep_cell v st)))) = osize (fst (snd (snd st)))"
  by (simp add: sweep_cell_def Let_def)

lemma sweep_page_loop_fold:
  "osize (fst (snd (snd st))) = osz \<Longrightarrow> 1 \<le> osz \<Longrightarrow>
   sweep_page_loop lim v st = Some (fold sweep_cell (cells_from osz lim v) st)"
proof (induction osz lim v arbitrary: st rule: cells_from.induct)
  case (1 osz lim v)
  show ?case
  proof (cases "v \<le> lim")
    case True
    have "sweep_page_loop lim v st = sweep_page_loop lim (v + osz) (sweep_cell v st)"
      using True "1.prems"(1) by (subst sweep_page_loop.simps) simp
    also have "\<dots> = Some (fold sweep_cell (cells_from osz lim (v + osz)) (sweep_cell v st))"
      using True "1.prems" by (intro "1.IH") auto
    also have "\<dots> = Some (fold sweep_cell (cells_from osz lim v) st)"
      using True "1.prems"(2) by (subst (2) cells_from.simps) simp
    finally show ?thesis .
  next
    case False
    then show ?thesis
      by (subst sweep_page_loop.simps, subst cells_from.simps) simp
  qed
qed

lemma sweep_cell_keep:
  "sweepable (m c) \<Longrightarrow>
   sweep_cell c (emp, pfl, p, m) = (emp \<and> gcv_isfree (m c), Cell_next c, set_pfl pfl c (p, m))"
  by (auto simp: sweep_cell_def sweepable_def Let_def)

lemma sweep_cell_live:
  "\<not> sweepable (m c) \<Longrightarrow>
   sweep_cell c (emp, pfl, p, m) = (False, pfl, p, m(c := clear_marked (m c)))"
  by (auto simp: sweep_cell_def sweepable_def Let_def)

lemma fl_inv_upd_other:
  "c \<notin> set acc \<Longrightarrow> fl_inv (p, m(c := x)) acc = fl_inv (p, m) acc"
  by (simp add: fl_inv_def linked_upd_other)

lemma sweep_cells_effect:
  assumes "fl_inv (p, m) acc" and "distinct (acc @ cs)"
  shows "\<exists>p' m'.
      fold sweep_cell cs (emp, cursor acc, p, m) =
        (emp \<and> (\<forall>v\<in>set cs. gcv_isfree (m v)),
         cursor (acc @ filter (\<lambda>v. sweepable (m v)) cs), p', m') \<and>
      fl_inv (p', m') (acc @ filter (\<lambda>v. sweepable (m v)) cs) \<and>
      osize p' = osize p \<and> pages p' = pages p \<and>
      (\<forall>a. a \<notin> set acc \<and> a \<notin> set cs \<longrightarrow> m' a = m a) \<and>
      (\<forall>v\<in>set cs. \<not> sweepable (m v) \<longrightarrow> m' v = clear_marked (m v))"
  using assms
proof (induction cs arbitrary: emp acc p m)
  case Nil
  then show ?case by simp
next
  case (Cons c cs)
  have c_acc: "c \<notin> set acc" and c_cs: "c \<notin> set cs" and d_acc: "distinct acc"
    using Cons.prems(2) by auto
  show ?case
  proof (cases "sweepable (m c)")
    case True
    let ?pm1 = "set_pfl (cursor acc) c (p, m)"
    let ?p1 = "fst ?pm1" and ?m1 = "snd ?pm1"
    have inv1: "fl_inv (?p1, ?m1) (acc @ [c])"
      using fl_inv_append [OF Cons.prems(1) d_acc c_acc] by simp
    have d1: "distinct ((acc @ [c]) @ cs)"
      using Cons.prems(2) by simp
    have same: "?m1 a = m a" if "a \<notin> set acc" for a
      using set_pfl_frame [OF that, of c "(p, m)"] by simp
    have same_cs: "?m1 v = m v" if "v \<in> set cs" for v
      using that Cons.prems(2) by (intro same) auto
    have filt: "filter (\<lambda>v. sweepable (?m1 v)) cs = filter (\<lambda>v. sweepable (m v)) cs"
      by (rule filter_cong) (simp_all add: same_cs)
    have allf: "(\<forall>v\<in>set cs. gcv_isfree (?m1 v)) = (\<forall>v\<in>set cs. gcv_isfree (m v))"
      by (simp add: same_cs)
    from Cons.IH [OF inv1 d1, of "emp \<and> gcv_isfree (m c)"] obtain p' m' where
      r: "fold sweep_cell cs (emp \<and> gcv_isfree (m c), cursor (acc @ [c]), ?p1, ?m1) =
            ((emp \<and> gcv_isfree (m c)) \<and> (\<forall>v\<in>set cs. gcv_isfree (?m1 v)),
             cursor ((acc @ [c]) @ filter (\<lambda>v. sweepable (?m1 v)) cs), p', m')"
        "fl_inv (p', m') ((acc @ [c]) @ filter (\<lambda>v. sweepable (?m1 v)) cs)"
        "osize p' = osize ?p1" "pages p' = pages ?p1"
        "\<forall>a. a \<notin> set (acc @ [c]) \<and> a \<notin> set cs \<longrightarrow> m' a = ?m1 a"
        "\<forall>v\<in>set cs. \<not> sweepable (?m1 v) \<longrightarrow> m' v = clear_marked (?m1 v)"
      by blast
    have step: "fold sweep_cell (c # cs) (emp, cursor acc, p, m) =
        fold sweep_cell cs (emp \<and> gcv_isfree (m c), cursor (acc @ [c]), ?p1, ?m1)"
      using True by (simp add: sweep_cell_keep)
    have "fold sweep_cell (c # cs) (emp, cursor acc, p, m) =
        (emp \<and> (\<forall>v\<in>set (c # cs). gcv_isfree (m v)),
         cursor (acc @ filter (\<lambda>v. sweepable (m v)) (c # cs)), p', m')"
      unfolding step r(1) filt allf using True by auto
    moreover have "fl_inv (p', m') (acc @ filter (\<lambda>v. sweepable (m v)) (c # cs))"
      using r(2) True by (simp add: filt)
    moreover have "osize p' = osize p" "pages p' = pages p"
      using r(3,4) by simp_all
    moreover have "\<forall>a. a \<notin> set acc \<and> a \<notin> set (c # cs) \<longrightarrow> m' a = m a"
      using r(5) same by auto
    moreover have "\<forall>v\<in>set (c # cs). \<not> sweepable (m v) \<longrightarrow> m' v = clear_marked (m v)"
      using r(6) True same_cs by auto
    ultimately show ?thesis by blast
  next
    case False
    let ?m1 = "m(c := clear_marked (m c))"
    have inv1: "fl_inv (p, ?m1) acc"
      using Cons.prems(1) c_acc by (simp add: fl_inv_upd_other)
    have d1: "distinct (acc @ cs)"
      using Cons.prems(2) by simp
    have same_cs: "?m1 v = m v" if "v \<in> set cs" for v
      using that c_cs by auto
    have filt: "filter (\<lambda>v. sweepable (?m1 v)) cs = filter (\<lambda>v. sweepable (m v)) cs"
      by (rule filter_cong) (simp_all add: same_cs del: fun_upd_apply)
    have allf: "(\<forall>v\<in>set cs. gcv_isfree (?m1 v)) = (\<forall>v\<in>set cs. gcv_isfree (m v))"
      using same_cs by (simp del: fun_upd_apply)
    have notfree: "\<not> gcv_isfree (m c)"
      using False by (simp add: sweepable_def)
    from Cons.IH [OF inv1 d1, of False] obtain p' m' where
      r: "fold sweep_cell cs (False, cursor acc, p, ?m1) =
            (False \<and> (\<forall>v\<in>set cs. gcv_isfree (?m1 v)),
             cursor (acc @ filter (\<lambda>v. sweepable (?m1 v)) cs), p', m')"
        "fl_inv (p', m') (acc @ filter (\<lambda>v. sweepable (?m1 v)) cs)"
        "osize p' = osize p" "pages p' = pages p"
        "\<forall>a. a \<notin> set acc \<and> a \<notin> set cs \<longrightarrow> m' a = ?m1 a"
        "\<forall>v\<in>set cs. \<not> sweepable (?m1 v) \<longrightarrow> m' v = clear_marked (?m1 v)"
      by blast
    have step: "fold sweep_cell (c # cs) (emp, cursor acc, p, m) =
        fold sweep_cell cs (False, cursor acc, p, ?m1)"
      using False by (simp add: sweep_cell_live)
    have "fold sweep_cell (c # cs) (emp, cursor acc, p, m) =
        (emp \<and> (\<forall>v\<in>set (c # cs). gcv_isfree (m v)),
         cursor (acc @ filter (\<lambda>v. sweepable (m v)) (c # cs)), p', m')"
      unfolding step r(1) filt allf using False notfree by auto
    moreover have "fl_inv (p', m') (acc @ filter (\<lambda>v. sweepable (m v)) (c # cs))"
      using r(2) False by (simp add: filt del: fun_upd_apply)
    moreover have "\<forall>a. a \<notin> set acc \<and> a \<notin> set (c # cs) \<longrightarrow> m' a = m a"
      using r(5) by auto
    moreover have "\<forall>v\<in>set (c # cs). \<not> sweepable (m v) \<longrightarrow> m' v = clear_marked (m v)"
    proof
      fix v assume v: "v \<in> set (c # cs)"
      show "\<not> sweepable (m v) \<longrightarrow> m' v = clear_marked (m v)"
      proof (cases "v = c")
        case True
        then have "m' v = ?m1 c"
          using r(5) c_acc c_cs by simp
        with True show ?thesis by simp
      next
        case False
        with v have "v \<in> set cs" by simp
        with r(6) same_cs [OF this] show ?thesis by (simp del: fun_upd_apply)
      qed
    qed
    ultimately show ?thesis using r(3,4) by blast
  qed
qed

lemma fl_inv_prefix: "fl_inv pm (xs @ ys) \<Longrightarrow> fl_inv pm xs"
  using linked_prefix [of "snd pm" xs ys] by (cases xs) (simp_all add: fl_inv_def)

lemma freelist_set_ppg [simp]: "freelist (fst (set_ppg ppg x pm)) = freelist (fst pm)"
  by (simp add: set_ppg_def split: ppg_ref.split)

lemma osize_set_ppg [simp]: "osize (fst (set_ppg ppg x pm)) = osize (fst pm)"
  by (simp add: set_ppg_def split: ppg_ref.split)

lemma set_ppg_frame:
  "a \<notin> set sv \<Longrightarrow> snd (set_ppg (pcursor sv) x pm) a = snd pm a"
  by (auto simp: pcursor_def set_ppg_def)

lemma fl_inv_cong:
  "freelist p' = freelist p \<Longrightarrow> (\<And>a. a \<in> set acc \<Longrightarrow> m' a = m a) \<Longrightarrow>
   fl_inv (p', m') acc = fl_inv (p, m) acc"
  unfolding fl_inv_def
  using linked_cong [of acc m' m] by (auto dest: in_set_butlastD)

lemma pl_inv_cong:
  "pages p' = pages p \<Longrightarrow> (\<And>a. a \<in> set sv \<Longrightarrow> m' a = m a) \<Longrightarrow>
   pl_inv (p', m') sv = pl_inv (p, m) sv"
  unfolding pl_inv_def
  using linked_cong [of sv m' m] by (auto dest: in_set_butlastD)

lemma lseg_cong:
  "(\<And>a. a \<in> set cs \<Longrightarrow> m' a = m a) \<Longrightarrow> lseg m' s cs b = lseg m s cs b"
  by (induction cs arbitrary: s) auto

lemma pl_inv_unlink:
  assumes "pl_inv pm sv" "distinct sv"
  shows "pl_inv (set_ppg (pcursor sv) x pm) sv \<and> ppg_val (set_ppg (pcursor sv) x pm) sv = x"
proof (cases "sv = []")
  case True
  then show ?thesis
    by (simp add: pl_inv_def pcursor_def set_ppg_def ppg_val_def)
next
  case False
  then show ?thesis
    using assms linked_upd_last [of "snd pm" sv x]
    by (simp add: pl_inv_def pcursor_def set_ppg_def ppg_val_def)
qed

lemma pl_inv_keep:
  assumes "pl_inv pm sv" "distinct sv" "pg \<notin> set sv" "ppg_val pm sv = pg"
  shows "pl_inv pm (sv @ [pg])"
proof (cases "sv = []")
  case True
  with assms show ?thesis
    by (simp add: pl_inv_def ppg_val_def)
next
  case False
  have "linked (snd pm) (sv @ [pg])"
    using linked_append_one [of "snd pm" sv pg] assms False
    by (simp add: pl_inv_def fun_upd_idem ppg_val_def)
  with assms False show ?thesis
    by (simp add: pl_inv_def)
qed

lemma ppg_val_cong:
  "pages p' = pages p \<Longrightarrow> (\<And>a. a \<in> set sv \<Longrightarrow> m' a = m a) \<Longrightarrow>
   ppg_val (p', m') sv = ppg_val (p, m) sv"
  by (simp add: ppg_val_def)

lemma ppg_val_snoc [simp]: "ppg_val pm (sv @ [pg]) = snd pm pg"
  by (simp add: ppg_val_def)

lemma distinct_three:
  assumes "distinct as" and "distinct bs" and "distinct cs"
    and "set as \<inter> set bs = {}" and "set bs \<inter> set cs = {}" and "set cs \<inter> set as = {}"
  shows "distinct (as @ bs @ cs)"
  using assms by auto

lemma pcursor_snoc [simp]: "pcursor (sv @ [pg]) = Page_next pg"
  by (simp add: pcursor_def)

lemma sweep_page_step:
  assumes inv: "outer_inv osz (p, mem h) pg sv acc (pg # pgs)" and osz: "1 \<le> osz"
  shows "\<exists>pg' p1 h1.
      sweep_page pg (pcursor sv) (cursor acc) (p, h) =
        Some (pg', pcursor (if all_free osz (mem h) pg then sv else sv @ [pg]),
              cursor (if all_free osz (mem h) pg then acc
                      else acc @ page_sweepable osz (mem h) pg), p1, h1) \<and>
      outer_inv osz (p1, mem h1) pg' (if all_free osz (mem h) pg then sv else sv @ [pg])
        (if all_free osz (mem h) pg then acc else acc @ page_sweepable osz (mem h) pg) pgs \<and>
      os_log h1 = os_log h @ (if all_free osz (mem h) pg then [Free pg] else []) \<and>
      (\<forall>a. a \<notin> set sv \<and> a \<notin> set acc \<and> a \<notin> set (page_cells osz pg) \<longrightarrow> mem h1 a = mem h a) \<and>
      (\<forall>v\<in>set (page_cells osz pg). \<not> sweepable (mem h v) \<longrightarrow> mem h1 v = clear_marked (mem h v))"
proof -
  let ?m = "mem h"
  let ?cs = "page_cells osz pg"
  let ?acc' = "acc @ page_sweepable osz ?m pg"
  from inv have os: "osize p = osz"
    and fl: "fl_inv (p, ?m) acc"
    and pl: "pl_inv (p, ?m) sv"
    and cur: "ppg_val (p, ?m) sv = pg"
    and seg: "lseg ?m (?m pg) pgs NULL"
    and nn: "NULL \<notin> set pgs"
    and dist: "distinct (sv @ acc @ (pg # pgs) @ ?cs @ concat (map (page_cells osz) pgs))"
    by (simp_all add: outer_inv_def)
  from dist have d_sv: "distinct sv" and d_acc: "distinct acc" and d_cs: "distinct ?cs"
    and d_rest: "distinct (pgs @ concat (map (page_cells osz) pgs))"
    and sv_acc: "set sv \<inter> set acc = {}"
    and sv_cs: "set sv \<inter> set ?cs = {}"
    and acc_cs: "set acc \<inter> set ?cs = {}"
    and pg_sv: "pg \<notin> set sv" and pg_acc: "pg \<notin> set acc" and pg_cs: "pg \<notin> set ?cs"
    and pg_pgs: "pg \<notin> set pgs"
    and pg_rest: "pg \<notin> set (concat (map (page_cells osz) pgs))"
    and sv_rest: "set sv \<inter> set (pgs @ concat (map (page_cells osz) pgs)) = {}"
    and acc_rest: "set acc \<inter> set (pgs @ concat (map (page_cells osz) pgs)) = {}"
    and cs_rest: "set ?cs \<inter> set (pgs @ concat (map (page_cells osz) pgs)) = {}"
    by (simp_all add: Int_Un_distrib Int_Un_distrib2 Int_commute)
  have d: "distinct (acc @ ?cs)"
    using d_acc d_cs acc_cs by simp
  from sweep_cells_effect [OF fl d, of True] obtain p' m' where
    fold: "fold sweep_cell ?cs (True, cursor acc, p, ?m) =
             (all_free osz ?m pg, cursor ?acc', p', m')"
    and fl': "fl_inv (p', m') ?acc'"
    and os': "osize p' = osize p" and pgs': "pages p' = pages p"
    and frame: "\<forall>a. a \<notin> set acc \<and> a \<notin> set ?cs \<longrightarrow> m' a = ?m a"
    and cleared: "\<forall>v\<in>set ?cs. \<not> sweepable (?m v) \<longrightarrow> m' v = clear_marked (?m v)"
    by (auto simp: all_free_def list_all_iff page_sweepable_def)
  have loop: "sweep_page_loop (pg + GC_PAGE_SZ - osize p) (pg + ptr_sz) (True, cursor acc, p, ?m) =
      Some (all_free osz ?m pg, cursor ?acc', p', m')"
    using sweep_page_loop_fold [of "(True, cursor acc, p, ?m)" osz] os osz fold
    by (simp add: page_cells_eq)
  have m'pg: "m' pg = ?m pg"
    using frame pg_acc pg_cs by simp
  have m'sv: "m' a = ?m a" if "a \<in> set sv" for a
    using frame that sv_acc sv_cs by blast
  have m'rest: "m' a = ?m a" if "a \<in> set (pgs @ concat (map (page_cells osz) pgs))" for a
    using frame that acc_rest cs_rest by blast
  have pl': "pl_inv (p', m') sv"
    using pl pl_inv_cong [of p' p sv m' ?m] pgs' m'sv by simp
  have cur': "ppg_val (p', m') sv = pg"
    using cur ppg_val_cong [of p' p sv m' ?m] pgs' m'sv by simp
  have seg': "lseg m' (?m pg) pgs NULL"
    using seg lseg_cong [of pgs m' ?m] m'rest by simp
  show ?thesis
  proof (cases "all_free osz ?m pg")
    case True
    let ?pm2 = "set_ppg (pcursor sv) (?m pg) (p', m')"
    let ?h1 = "os_free pg (h\<lparr>mem := snd ?pm2\<rparr>)"
    have res: "sweep_page pg (pcursor sv) (cursor acc) (p, h) =
        Some (?m pg, pcursor sv, cursor acc, fst ?pm2, ?h1)"
      using True by (simp add: sweep_page_def loop m'pg Let_def)
    have mem1: "mem ?h1 = snd ?pm2"
      by (simp add: os_free_def)
    have m2: "snd ?pm2 a = m' a" if "a \<notin> set sv" for a
      using set_ppg_frame [OF that, of "?m pg" "(p', m')"] by simp
    have "fl_inv (p', m') acc"
      using fl' by (rule fl_inv_prefix)
    then have fl2: "fl_inv (fst ?pm2, snd ?pm2) acc"
      using fl_inv_cong [of "fst ?pm2" p' acc "snd ?pm2" m'] m2 sv_acc by auto
    have pl2: "pl_inv ?pm2 sv \<and> ppg_val ?pm2 sv = ?m pg"
      using pl' d_sv by (rule pl_inv_unlink)
    have seg2: "lseg (snd ?pm2) (?m pg) pgs NULL"
      using seg' lseg_cong [of pgs "snd ?pm2" m'] m2 sv_rest by auto
    have dist2: "distinct (sv @ acc @ pgs @ concat (map (page_cells osz) pgs))"
      using d_sv d_acc d_rest sv_acc sv_rest acc_rest
      by (intro distinct_three) (simp_all add: Int_commute)
    have inv2: "outer_inv osz (fst ?pm2, mem ?h1) (?m pg) sv acc pgs"
      unfolding outer_inv_def mem1 using fl2 pl2 seg2 dist2 nn os os' by simp
    have frame2: "\<forall>a. a \<notin> set sv \<and> a \<notin> set acc \<and> a \<notin> set ?cs \<longrightarrow> mem ?h1 a = ?m a"
      unfolding mem1 using m2 frame by simp
    have cleared2: "\<forall>v\<in>set ?cs. \<not> sweepable (?m v) \<longrightarrow> mem ?h1 v = clear_marked (?m v)"
    proof (intro ballI impI)
      fix v assume v: "v \<in> set ?cs" "\<not> sweepable (?m v)"
      then have "v \<notin> set sv" using sv_cs by blast
      from m2 [OF this] cleared v show "mem ?h1 v = clear_marked (?m v)"
        unfolding mem1 by simp
    qed
    have "os_log ?h1 = os_log h @ [Free pg]"
      by (simp add: os_free_def)
    with res inv2 frame2 cleared2 True show ?thesis
      by (intro exI [of _ "?m pg"] exI [of _ "fst ?pm2"] exI [of _ ?h1]) simp
  next
    case False
    let ?h1 = "h\<lparr>mem := m'\<rparr>"
    have res: "sweep_page pg (pcursor sv) (cursor acc) (p, h) =
        Some (?m pg, Page_next pg, cursor ?acc', p', ?h1)"
      using False by (simp add: sweep_page_def loop m'pg Let_def)
    have pl2: "pl_inv (p', m') (sv @ [pg])"
      using pl' d_sv pg_sv cur' by (rule pl_inv_keep)
    have sub: "set (page_sweepable osz ?m pg) \<subseteq> set ?cs"
      by (auto simp: page_sweepable_def)
    have d_sw: "distinct (page_sweepable osz ?m pg)"
      using d_cs by (simp add: page_sweepable_def)
    have a1: "distinct (sv @ [pg])"
      using d_sv pg_sv by simp
    have a2: "distinct ?acc'"
      using d_acc d_sw acc_cs sub by (auto simp: disjoint_iff)
    have a3: "set (sv @ [pg]) \<inter> set ?acc' = {}"
      using sv_acc sv_cs pg_acc pg_cs sub by (auto simp: disjoint_iff)
    have a4: "set (sv @ [pg]) \<inter> set (pgs @ concat (map (page_cells osz) pgs)) = {}"
      using sv_rest pg_pgs pg_rest by (auto simp: disjoint_iff)
    have a5: "set ?acc' \<inter> set (pgs @ concat (map (page_cells osz) pgs)) = {}"
      using acc_rest cs_rest sub by (auto simp: disjoint_iff)
    have dist2: "distinct ((sv @ [pg]) @ ?acc' @ pgs @ concat (map (page_cells osz) pgs))"
      using a1 a2 a3 a4 a5 d_rest
      by (intro distinct_three) (simp_all add: Int_commute)
    have inv2: "outer_inv osz (p', mem ?h1) (?m pg) (sv @ [pg]) ?acc' pgs"
      unfolding outer_inv_def using fl' pl2 seg' dist2 nn os os' m'pg by simp
    have frame2: "\<forall>a. a \<notin> set sv \<and> a \<notin> set acc \<and> a \<notin> set ?cs \<longrightarrow> mem ?h1 a = ?m a"
      using frame by simp
    have cleared2: "\<forall>v\<in>set ?cs. \<not> sweepable (?m v) \<longrightarrow> mem ?h1 v = clear_marked (?m v)"
      using cleared by simp
    from res inv2 frame2 cleared2 False show ?thesis
      by (intro exI [of _ "?m pg"] exI [of _ p'] exI [of _ ?h1]) simp
  qed
qed

lemma all_free_cong:
  "(\<And>v. v \<in> set (page_cells osz pg) \<Longrightarrow> m' v = m v) \<Longrightarrow> all_free osz m' pg = all_free osz m pg"
  by (simp add: all_free_def list_all_iff)

lemma page_sweepable_cong:
  "(\<And>v. v \<in> set (page_cells osz pg) \<Longrightarrow> m' v = m v) \<Longrightarrow>
   page_sweepable osz m' pg = page_sweepable osz m pg"
  unfolding page_sweepable_def by (rule filter_cong) simp_all

lemma surviving_cong:
  assumes "\<And>v. v \<in> set (concat (map (page_cells osz) pgs)) \<Longrightarrow> m' v = m v"
  shows "surviving osz m' pgs = surviving osz m pgs"
  unfolding surviving_def
proof (rule filter_cong [OF refl])
  fix pg assume "pg \<in> set pgs"
  then have "all_free osz m' pg = all_free osz m pg"
    using assms by (intro all_free_cong) auto
  then show "(\<not> all_free osz m' pg) = (\<not> all_free osz m pg)" by simp
qed

lemma freed_cong:
  assumes "\<And>v. v \<in> set (concat (map (page_cells osz) pgs)) \<Longrightarrow> m' v = m v"
  shows "filter (all_free osz m') pgs = filter (all_free osz m) pgs"
proof (rule filter_cong [OF refl])
  fix pg assume "pg \<in> set pgs"
  then show "all_free osz m' pg = all_free osz m pg"
    using assms by (intro all_free_cong) auto
qed

lemma surviving_subset: "set (surviving osz m pgs) \<subseteq> set pgs"
  by (auto simp: surviving_def)

lemma swept_freelist_cong:
  assumes "\<And>v. v \<in> set (concat (map (page_cells osz) pgs)) \<Longrightarrow> m' v = m v"
  shows "swept_freelist osz m' pgs = swept_freelist osz m pgs"
proof -
  have "map (page_sweepable osz m') (surviving osz m pgs) =
        map (page_sweepable osz m) (surviving osz m pgs)"
  proof (rule map_cong [OF refl])
    fix pg assume "pg \<in> set (surviving osz m pgs)"
    then have "pg \<in> set pgs" using surviving_subset by blast
    then show "page_sweepable osz m' pg = page_sweepable osz m pg"
      using assms by (intro page_sweepable_cong) auto
  qed
  then show ?thesis
    by (simp only: swept_freelist_def surviving_cong [OF assms])
qed

lemma surviving_Cons:
  "surviving osz m (pg # pgs) =
     (if all_free osz m pg then surviving osz m pgs else pg # surviving osz m pgs)"
  by (simp add: surviving_def)

lemma swept_freelist_Cons:
  "swept_freelist osz m (pg # pgs) =
     (if all_free osz m pg then swept_freelist osz m pgs
      else page_sweepable osz m pg @ swept_freelist osz m pgs)"
  by (simp add: swept_freelist_def surviving_def)

lemma sweep_pool_loop_effect:
  assumes "outer_inv osz (p, mem h) pg sv acc pgs" and "1 \<le> osz"
  shows "\<exists>p' h'.
      sweep_pool_loop pg (pcursor sv) (cursor acc) (p, h) =
        Some (cursor (acc @ swept_freelist osz (mem h) pgs), p', h') \<and>
      outer_inv osz (p', mem h') NULL (sv @ surviving osz (mem h) pgs)
        (acc @ swept_freelist osz (mem h) pgs) [] \<and>
      os_log h' = os_log h @ map Free (filter (all_free osz (mem h)) pgs) \<and>
      (\<forall>a. a \<notin> set sv \<and> a \<notin> set acc \<and> a \<notin> set pgs \<and>
           a \<notin> set (concat (map (page_cells osz) pgs)) \<longrightarrow> mem h' a = mem h a) \<and>
      (\<forall>v\<in>set (concat (map (page_cells osz) pgs)).
           \<not> sweepable (mem h v) \<longrightarrow> mem h' v = clear_marked (mem h v))"
  using assms
proof (induction pgs arbitrary: p h pg sv acc)
  case Nil
  then have "pg = NULL"
    by (simp add: outer_inv_def)
  then have "sweep_pool_loop pg (pcursor sv) (cursor acc) (p, h) = Some (cursor acc, p, h)"
    by (subst sweep_pool_loop.simps) simp
  with Nil.prems(1) \<open>pg = NULL\<close> show ?case
    by (simp add: swept_freelist_def surviving_def)
next
  case (Cons pg0 pgs)
  let ?m = "mem h"
  let ?cs = "page_cells osz pg0"
  let ?rest = "concat (map (page_cells osz) pgs)"
  let ?af = "all_free osz ?m pg0"
  let ?sv1 = "if ?af then sv else sv @ [pg0]"
  let ?acc1 = "if ?af then acc else acc @ page_sweepable osz ?m pg0"
  from Cons.prems(1) have pg: "pg = pg0" and pgnz: "pg0 \<noteq> NULL"
    and dist: "distinct (sv @ acc @ (pg0 # pgs) @ ?cs @ ?rest)"
    by (simp_all add: outer_inv_def)
  from dist have sv_cs: "set sv \<inter> set ?cs = {}" and acc_cs: "set acc \<inter> set ?cs = {}"
    and pg_cs: "pg0 \<notin> set ?cs"
    and cs_pgs: "set ?cs \<inter> set pgs = {}" and cs_rest: "set ?cs \<inter> set ?rest = {}"
    and sv_rest: "set sv \<inter> set ?rest = {}" and acc_rest: "set acc \<inter> set ?rest = {}"
    and sv_pgs: "set sv \<inter> set pgs = {}" and acc_pgs: "set acc \<inter> set pgs = {}"
    and pg_pgs: "pg0 \<notin> set pgs" and pg_rest: "pg0 \<notin> set ?rest"
    by (simp_all add: Int_Un_distrib Int_Un_distrib2 Int_commute)
  have inv0: "outer_inv osz (p, ?m) pg0 sv acc (pg0 # pgs)"
    using Cons.prems(1) pg by simp
  from sweep_page_step [OF inv0 Cons.prems(2)] obtain pg' p1 h1 where
    page: "sweep_page pg0 (pcursor sv) (cursor acc) (p, h) =
             Some (pg', pcursor ?sv1, cursor ?acc1, p1, h1)"
    and inv1: "outer_inv osz (p1, mem h1) pg' ?sv1 ?acc1 pgs"
    and log1: "os_log h1 = os_log h @ (if ?af then [Free pg0] else [])"
    and frame1: "\<forall>a. a \<notin> set sv \<and> a \<notin> set acc \<and> a \<notin> set ?cs \<longrightarrow> mem h1 a = ?m a"
    and cleared1: "\<forall>v\<in>set ?cs. \<not> sweepable (?m v) \<longrightarrow> mem h1 v = clear_marked (?m v)"
    by blast
  have same_rest: "mem h1 v = ?m v" if "v \<in> set ?rest" for v
    using frame1 that sv_rest acc_rest cs_rest by blast
  have surv: "surviving osz (mem h1) pgs = surviving osz ?m pgs"
    using same_rest by (intro surviving_cong) simp
  have swept: "swept_freelist osz (mem h1) pgs = swept_freelist osz ?m pgs"
    using same_rest by (intro swept_freelist_cong) simp
  have freed: "filter (all_free osz (mem h1)) pgs = filter (all_free osz ?m) pgs"
    using same_rest by (intro freed_cong) simp
  from Cons.IH [OF inv1 Cons.prems(2)] obtain p' h' where
    loop: "sweep_pool_loop pg' (pcursor ?sv1) (cursor ?acc1) (p1, h1) =
             Some (cursor (?acc1 @ swept_freelist osz ?m pgs), p', h')"
    and inv': "outer_inv osz (p', mem h') NULL (?sv1 @ surviving osz ?m pgs)
                 (?acc1 @ swept_freelist osz ?m pgs) []"
    and log': "os_log h' = os_log h1 @ map Free (filter (all_free osz ?m) pgs)"
    and frame': "\<forall>a. a \<notin> set ?sv1 \<and> a \<notin> set ?acc1 \<and> a \<notin> set pgs \<and> a \<notin> set ?rest
                   \<longrightarrow> mem h' a = mem h1 a"
    and cleared': "\<forall>v\<in>set ?rest. \<not> sweepable (mem h1 v) \<longrightarrow> mem h' v = clear_marked (mem h1 v)"
    unfolding surv swept freed by blast
  have unfold: "sweep_pool_loop pg (pcursor sv) (cursor acc) (p, h) =
      sweep_pool_loop pg' (pcursor ?sv1) (cursor ?acc1) (p1, h1)"
    using pg pgnz page by (subst sweep_pool_loop.simps) simp
  have sv_eq: "?sv1 @ surviving osz ?m pgs = sv @ surviving osz ?m (pg0 # pgs)"
    by (simp add: surviving_Cons)
  have acc_eq: "?acc1 @ swept_freelist osz ?m pgs = acc @ swept_freelist osz ?m (pg0 # pgs)"
    by (simp add: swept_freelist_Cons)
  have r1: "sweep_pool_loop pg (pcursor sv) (cursor acc) (p, h) =
      Some (cursor (acc @ swept_freelist osz ?m (pg0 # pgs)), p', h')"
    unfolding unfold loop acc_eq ..
  have r2: "outer_inv osz (p', mem h') NULL (sv @ surviving osz ?m (pg0 # pgs))
      (acc @ swept_freelist osz ?m (pg0 # pgs)) []"
    using inv' unfolding sv_eq acc_eq .
  have r3: "os_log h' = os_log h @ map Free (filter (all_free osz ?m) (pg0 # pgs))"
    using log' log1 by simp
  have sub: "set (page_sweepable osz ?m pg0) \<subseteq> set ?cs"
    by (auto simp: page_sweepable_def)
  have r4: "\<forall>a. a \<notin> set sv \<and> a \<notin> set acc \<and> a \<notin> set (pg0 # pgs) \<and>
      a \<notin> set (concat (map (page_cells osz) (pg0 # pgs))) \<longrightarrow> mem h' a = ?m a"
  proof (intro allI impI)
    fix a
    assume a: "a \<notin> set sv \<and> a \<notin> set acc \<and> a \<notin> set (pg0 # pgs) \<and>
      a \<notin> set (concat (map (page_cells osz) (pg0 # pgs)))"
    then have "a \<notin> set ?sv1" "a \<notin> set ?acc1" "a \<notin> set pgs" "a \<notin> set ?rest" "a \<notin> set ?cs"
      using sub by auto
    with frame' frame1 a show "mem h' a = ?m a"
      by simp
  qed
  have r5: "\<forall>v\<in>set (concat (map (page_cells osz) (pg0 # pgs))).
      \<not> sweepable (?m v) \<longrightarrow> mem h' v = clear_marked (?m v)"
  proof (intro ballI impI)
    fix v
    assume v: "v \<in> set (concat (map (page_cells osz) (pg0 # pgs)))" and ns: "\<not> sweepable (?m v)"
    show "mem h' v = clear_marked (?m v)"
    proof (cases "v \<in> set ?cs")
      case True
      then have "v \<notin> set sv" "v \<notin> set acc" "v \<noteq> pg0" "v \<notin> set pgs" "v \<notin> set ?rest"
        using sv_cs acc_cs pg_cs cs_pgs cs_rest by auto
      moreover have "v \<notin> set (page_sweepable osz ?m pg0)"
        using ns by (simp add: page_sweepable_def)
      ultimately have "v \<notin> set ?sv1" "v \<notin> set ?acc1"
        by auto
      with frame' \<open>v \<notin> set pgs\<close> \<open>v \<notin> set ?rest\<close> have "mem h' v = mem h1 v"
        by simp
      with cleared1 True ns show ?thesis by simp
    next
      case False
      with v have vr: "v \<in> set ?rest" by simp
      from same_rest [OF vr] ns have "\<not> sweepable (mem h1 v)" by simp
      with cleared' vr have "mem h' v = clear_marked (mem h1 v)" by blast
      with same_rest [OF vr] show ?thesis by simp
    qed
  qed
  from r1 r2 r3 r4 r5 show ?case by blast
qed

lemma page_cells_within:
  assumes "v \<in> set (page_cells osz pg)"
  shows "pg + ptr_sz \<le> v \<and> v + osz \<le> pg + GC_PAGE_SZ"
proof -
  from assms obtain i where i: "i < (GC_PAGE_SZ - ptr_sz) div osz" and v: "v = pg + ptr_sz + i * osz"
    by (auto simp: page_cells_def)
  from i have "Suc i \<le> (GC_PAGE_SZ - ptr_sz) div osz"
    by simp
  then have "Suc i * osz \<le> ((GC_PAGE_SZ - ptr_sz) div osz) * osz"
    by (rule mult_le_mono1)
  also have "\<dots> \<le> GC_PAGE_SZ - ptr_sz"
    by simp
  finally have "i * osz + osz \<le> GC_PAGE_SZ - ptr_sz"
    by simp
  with v show ?thesis
    by (simp add: GC_PAGE_SZ_def ptr_sz_def)
qed

lemma page_cells_region:
  "1 \<le> osz \<Longrightarrow> v \<in> set (page_cells osz pg) \<Longrightarrow> pg < v \<and> v < pg + GC_PAGE_SZ"
  using page_cells_within [of v osz pg] by (simp add: ptr_sz_def)

lemma separate_distinct:
  assumes "pages_separate pgs" and "1 \<le> osz"
  shows "distinct (pgs @ concat (map (page_cells osz) pgs))"
  using assms(1)
proof (induction pgs)
  case Nil
  show ?case by simp
next
  case (Cons pg pgs)
  let ?cs = "page_cells osz pg"
  let ?rest = "concat (map (page_cells osz) pgs)"
  from Cons.prems have sep: "\<forall>q\<in>set pgs. pg + GC_PAGE_SZ \<le> q \<or> q + GC_PAGE_SZ \<le> pg"
    and "pages_separate pgs"
    by simp_all
  with Cons.IH have IH: "distinct (pgs @ ?rest)"
    by simp
  have reg: "pg < v \<and> v < pg + GC_PAGE_SZ" if "v \<in> set ?cs" for v
    using page_cells_region [OF assms(2) that] .
  have reg': "\<exists>q\<in>set pgs. q < v \<and> v < q + GC_PAGE_SZ" if "v \<in> set ?rest" for v
    using that page_cells_region [OF assms(2)] by auto
  have pg_pgs: "pg \<notin> set pgs"
    using sep by (auto simp: GC_PAGE_SZ_def)
  have pg_cs: "pg \<notin> set ?cs"
    using reg by auto
  have pg_rest: "pg \<notin> set ?rest"
    using reg' sep by fastforce
  have cs_pgs: "set ?cs \<inter> set pgs = {}"
    using reg sep by fastforce
  have cs_rest: "set ?cs \<inter> set ?rest = {}"
  proof (rule ccontr)
    assume "set ?cs \<inter> set ?rest \<noteq> {}"
    then obtain v where v: "v \<in> set ?cs" "v \<in> set ?rest" by blast
    from reg' [OF v(2)] obtain q where q: "q \<in> set pgs" "q < v" "v < q + GC_PAGE_SZ"
      by blast
    from reg [OF v(1)] sep q show False
      by fastforce
  qed
  have d_cs: "distinct ?cs"
    using assms(2) by (rule page_cells_distinct)
  have "distinct ([pg] @ (pgs @ ?rest) @ ?cs)"
    using IH d_cs pg_pgs pg_cs pg_rest cs_pgs cs_rest
    by (intro distinct_three) auto
  then show ?case
    by (simp add: Int_Un_distrib Int_Un_distrib2 Int_commute Un_commute)
qed

lemma pl_inv_lseg:
  "pl_inv pm sv \<Longrightarrow> ppg_val pm sv = x \<Longrightarrow> lseg (snd pm) (pages (fst pm)) sv x"
  by (cases "sv = []") (simp_all add: pl_inv_def ppg_val_def lseg_linked)

lemma swept_freelist_set:
  "v \<in> set (swept_freelist osz m pgs) \<longleftrightarrow>
     (\<exists>pg\<in>set (surviving osz m pgs). v \<in> set (page_cells osz pg) \<and> sweepable (m v))"
  by (auto simp: swept_freelist_def page_sweepable_def)

lemma sweep_pool_spec:
  assumes osz: "1 \<le> osize p"
    and seg: "lseg (mem h) (pages p) pgs NULL"
    and nn: "NULL \<notin> set pgs"
    and dist: "distinct (pgs @ concat (map (page_cells (osize p)) pgs))"
  shows "\<exists>p' h'. sweep_pool p h = Some (p', h') \<and>
      lseg (mem h') (pages p') (surviving (osize p) (mem h) pgs) NULL \<and>
      lseg (mem h') (freelist p') (swept_freelist (osize p) (mem h) pgs) NULL \<and>
      distinct (swept_freelist (osize p) (mem h) pgs) \<and>
      os_log h' = os_log h @ map Free (filter (all_free (osize p) (mem h)) pgs) \<and>
      osize p' = osize p \<and>
      (\<forall>v\<in>set (concat (map (page_cells (osize p)) pgs)).
           \<not> sweepable (mem h v) \<longrightarrow> mem h' v = clear_marked (mem h v))"
proof -
  let ?osz = "osize p" and ?m = "mem h"
  let ?sv = "surviving ?osz ?m pgs" and ?fl = "swept_freelist ?osz ?m pgs"
  have inv0: "outer_inv ?osz (p, ?m) (pages p) [] [] pgs"
    using seg nn dist by (simp add: outer_inv_def fl_inv_def pl_inv_def ppg_val_def)
  from sweep_pool_loop_effect [OF inv0 osz] obtain p1 h1 where
    loop: "sweep_pool_loop (pages p) Pool_pages Pool_freelist (p, h) = Some (cursor ?fl, p1, h1)"
    and inv1: "outer_inv ?osz (p1, mem h1) NULL ?sv ?fl []"
    and log1: "os_log h1 = os_log h @ map Free (filter (all_free ?osz ?m) pgs)"
    and cleared1: "\<forall>v\<in>set (concat (map (page_cells ?osz) pgs)).
        \<not> sweepable (?m v) \<longrightarrow> mem h1 v = clear_marked (?m v)"
    by (auto simp: pcursor_def cursor_def)
  from inv1 have os1: "osize p1 = ?osz" and fl1: "fl_inv (p1, mem h1) ?fl"
    and pl1: "pl_inv (p1, mem h1) ?sv" and cur1: "ppg_val (p1, mem h1) ?sv = NULL"
    and d1: "distinct (?sv @ ?fl)"
    by (simp_all add: outer_inv_def)
  let ?pm2 = "set_pfl (cursor ?fl) NULL (p1, mem h1)"
  let ?h2 = "h1\<lparr>mem := snd ?pm2\<rparr>"
  have res: "sweep_pool p h = Some (fst ?pm2, ?h2)"
    by (simp add: sweep_pool_def loop Let_def)
  have d_fl: "distinct ?fl" and sv_fl: "set ?sv \<inter> set ?fl = {}"
    using d1 by simp_all
  have fseg: "lseg (snd ?pm2) (freelist (fst ?pm2)) ?fl NULL"
    using fl1 d_fl by (rule fl_inv_close)
  have m2: "snd ?pm2 a = mem h1 a" if "a \<notin> set ?fl" for a
    using set_pfl_frame [OF that, of NULL "(p1, mem h1)"] by simp
  have "lseg (mem h1) (pages p1) ?sv NULL"
    using pl_inv_lseg [OF pl1 cur1] by simp
  then have pseg: "lseg (snd ?pm2) (pages (fst ?pm2)) ?sv NULL"
    using lseg_cong [of ?sv "snd ?pm2" "mem h1"] m2 sv_fl by auto
  have cleared2: "\<forall>v\<in>set (concat (map (page_cells ?osz) pgs)).
      \<not> sweepable (?m v) \<longrightarrow> snd ?pm2 v = clear_marked (?m v)"
  proof (intro ballI impI)
    fix v assume v: "v \<in> set (concat (map (page_cells ?osz) pgs))" and ns: "\<not> sweepable (?m v)"
    from ns have "v \<notin> set ?fl"
      by (simp add: swept_freelist_set)
    moreover from cleared1 v ns have "mem h1 v = clear_marked (?m v)"
      by blast
    ultimately show "snd ?pm2 v = clear_marked (?m v)"
      using m2 by simp
  qed
  have "os_log ?h2 = os_log h @ map Free (filter (all_free ?osz ?m) pgs)"
    using log1 by simp
  moreover have "osize (fst ?pm2) = ?osz"
    using os1 by simp
  ultimately show ?thesis
    using res pseg fseg d_fl cleared2
    by (intro exI [of _ "fst ?pm2"] exI [of _ ?h2]) simp
qed

lemma lseg_next_in:
  "lseg m a cs b \<Longrightarrow> v \<in> set cs \<Longrightarrow> m v \<in> set cs \<or> m v = b"
proof (induction cs arbitrary: a)
  case Nil
  then show ?case by simp
next
  case (Cons c cs)
  show ?case
  proof (cases "v = c")
    case True
    with Cons.prems(1) show ?thesis
      by (cases cs) auto
  next
    case False
    with Cons show ?thesis by auto
  qed
qed

lemma not_marked_clear [simp]: "\<not> marked (clear_marked w)"
  by (simp add: marked_def clear_marked_def)

lemma gcv_isfree_ge: "4 \<le> w \<Longrightarrow> gcv_isfree w"
  by (simp add: gcv_isfree_def otherbits_def div_greater_zero_iff)

lemma distinct_count_list: "distinct xs \<Longrightarrow> x \<in> set xs \<Longrightarrow> count_list xs x = 1"
  by (induction xs) auto

lemma pages_separate_nth:
  "pages_separate pgs \<Longrightarrow> pg \<in> set pgs \<Longrightarrow> q \<in> set pgs \<Longrightarrow> pg \<noteq> q \<Longrightarrow>
   pg + GC_PAGE_SZ \<le> q \<or> q + GC_PAGE_SZ \<le> pg"
  by (induction pgs) auto

lemma cells_of_other_page:
  assumes "pages_separate pgs" "1 \<le> osz" "pg \<in> set pgs" "q \<in> set pgs" "pg \<noteq> q"
  shows "set (page_cells osz pg) \<inter> set (page_cells osz q) = {}"
proof (rule ccontr)
  assume "set (page_cells osz pg) \<inter> set (page_cells osz q) \<noteq> {}"
  then obtain v where "v \<in> set (page_cells osz pg)" "v \<in> set (page_cells osz q)"
    by blast
  then have "pg < v \<and> v < pg + GC_PAGE_SZ" "q < v \<and> v < q + GC_PAGE_SZ"
    using page_cells_region [OF assms(2)] by blast+
  with pages_separate_nth [OF assms(1,3,4,5)] show False
    by linarith
qed

text \<open>
  C4. For a pool with a cell size from \<^verbatim>\<open>sizeof(void*)\<close> to \<^verbatim>\<open>GC_PAGE_SZ\<close> whose page list
  is null-terminated and whose pages do not overlap, \<open>sweep_pool\<close> returns, and afterwards: the page list
  \<open>pgs'\<close> and the free list \<open>fl\<close> are null-terminated lists in memory; the free list has
  no duplicates; every cell on it is a cell of a page of \<open>pgs'\<close> and lies inside that page;
  every cell of those pages that is not on the free list, and every cell of them whose
  header is not free-encoded, has \<open>marked\<close> clear; and every cell of those pages that was
  free-encoded or unmarked before the sweep is on the free list exactly once.
\<close>

theorem sweep_pool_invariant:
  assumes lo: "ptr_sz \<le> osize p" and hi: "osize p \<le> GC_PAGE_SZ"
    and seg: "lseg (mem h) (pages p) pgs NULL" and nn: "NULL \<notin> set pgs"
    and sep: "pages_separate pgs"
  shows "\<exists>p' h' pgs' fl. sweep_pool p h = Some (p', h') \<and>
     lseg (mem h') (pages p') pgs' NULL \<and> set pgs' \<subseteq> set pgs \<and>
     lseg (mem h') (freelist p') fl NULL \<and> distinct fl \<and>
     (\<forall>v\<in>set fl. \<exists>pg\<in>set pgs'. v \<in> set (page_cells (osize p) pg) \<and>
        pg + ptr_sz \<le> v \<and> v + osize p \<le> pg + GC_PAGE_SZ) \<and>
     (\<forall>pg\<in>set pgs'. \<forall>v\<in>set (page_cells (osize p) pg).
        (v \<notin> set fl \<longrightarrow> \<not> marked (mem h' v)) \<and>
        (\<not> gcv_isfree (mem h' v) \<longrightarrow> \<not> marked (mem h' v)) \<and>
        (gcv_isfree (mem h v) \<or> \<not> marked (mem h v) \<longrightarrow> count_list fl v = 1))"
proof -
  let ?osz = "osize p" and ?m = "mem h"
  let ?sv = "surviving ?osz ?m pgs" and ?fl = "swept_freelist ?osz ?m pgs"
  have one: "1 \<le> osize p"
    using lo by (simp add: ptr_sz_def)
  have dist: "distinct (pgs @ concat (map (page_cells ?osz) pgs))"
    using sep one by (rule separate_distinct)
  from sweep_pool_spec [OF one seg nn dist] obtain p' h' where
    res: "sweep_pool p h = Some (p', h')"
    and pseg: "lseg (mem h') (pages p') ?sv NULL"
    and fseg: "lseg (mem h') (freelist p') ?fl NULL"
    and d_fl: "distinct ?fl"
    and cleared: "\<forall>v\<in>set (concat (map (page_cells ?osz) pgs)).
        \<not> sweepable (?m v) \<longrightarrow> mem h' v = clear_marked (?m v)"
    by blast
  have sub: "set ?sv \<subseteq> set pgs"
    by (rule surviving_subset)
  have within: "\<forall>v\<in>set ?fl. \<exists>pg\<in>set ?sv. v \<in> set (page_cells ?osz pg) \<and>
      pg + ptr_sz \<le> v \<and> v + ?osz \<le> pg + GC_PAGE_SZ"
  proof
    fix v assume "v \<in> set ?fl"
    then obtain pg where pg: "pg \<in> set ?sv" "v \<in> set (page_cells ?osz pg)"
      by (auto simp: swept_freelist_set)
    with page_cells_within [OF pg(2)]
    show "\<exists>pg\<in>set ?sv. v \<in> set (page_cells ?osz pg) \<and>
        pg + ptr_sz \<le> v \<and> v + ?osz \<le> pg + GC_PAGE_SZ"
      by blast
  qed
  have fl_ge: "8 \<le> v" if "v \<in> set ?fl" for v
  proof -
    from within that obtain pg where "pg + ptr_sz \<le> v"
      by blast
    then show ?thesis by (simp add: ptr_sz_def)
  qed
  have cells: "(v \<notin> set ?fl \<longrightarrow> \<not> marked (mem h' v)) \<and>
      (\<not> gcv_isfree (mem h' v) \<longrightarrow> \<not> marked (mem h' v)) \<and>
      (gcv_isfree (?m v) \<or> \<not> marked (?m v) \<longrightarrow> count_list ?fl v = 1)"
    if pg: "pg \<in> set ?sv" and v: "v \<in> set (page_cells ?osz pg)" for pg v
  proof (cases "sweepable (?m v)")
    case True
    with pg v have in_fl: "v \<in> set ?fl"
      by (auto simp: swept_freelist_set)
    from lseg_next_in [OF fseg in_fl] have "mem h' v \<in> set ?fl \<or> mem h' v = NULL" .
    then have "\<not> gcv_isfree (mem h' v) \<longrightarrow> \<not> marked (mem h' v)"
    proof
      assume "mem h' v \<in> set ?fl"
      then have "8 \<le> mem h' v"
        by (rule fl_ge)
      then have "gcv_isfree (mem h' v)"
        by (intro gcv_isfree_ge) simp
      then show ?thesis by simp
    next
      assume "mem h' v = NULL"
      then show ?thesis by (simp add: marked_def)
    qed
    with in_fl d_fl show ?thesis
      by (simp add: distinct_count_list)
  next
    case False
    from pg sub v have "v \<in> set (concat (map (page_cells ?osz) pgs))"
      by auto
    with cleared False have "mem h' v = clear_marked (?m v)"
      by blast
    with False show ?thesis
      by (simp add: sweepable_def)
  qed
  have all_cells: "\<forall>pg\<in>set ?sv. \<forall>v\<in>set (page_cells ?osz pg).
      (v \<notin> set ?fl \<longrightarrow> \<not> marked (mem h' v)) \<and>
      (\<not> gcv_isfree (mem h' v) \<longrightarrow> \<not> marked (mem h' v)) \<and>
      (gcv_isfree (?m v) \<or> \<not> marked (?m v) \<longrightarrow> count_list ?fl v = 1)"
    using cells by (intro ballI)
  show ?thesis
    apply (rule exI [of _ p'])
    apply (rule exI [of _ h'])
    apply (rule exI [of _ ?sv])
    apply (rule exI [of _ ?fl])
    apply (intro conjI)
          apply (rule res)
         apply (rule pseg)
        apply (rule sub)
       apply (rule fseg)
      apply (rule d_fl)
     apply (rule within)
    apply (rule all_cells)
    done
qed


theorem sweep_pool_invariant_witness:
  "ptr_sz \<le> osize pool1 \<and> osize pool1 \<le> GC_PAGE_SZ \<and> lseg (mem heap1) (pages pool1) [16384, 32768] NULL \<and>
   NULL \<notin> set [16384, 32768 :: nat] \<and> pages_separate [16384, 32768] \<and>
   (\<exists>p' h' pgs' fl. sweep_pool pool1 heap1 = Some (p', h') \<and>
     lseg (mem h') (pages p') pgs' NULL \<and> set pgs' \<subseteq> set [16384, 32768] \<and>
     lseg (mem h') (freelist p') fl NULL \<and> distinct fl \<and>
     (\<forall>v\<in>set fl. \<exists>pg\<in>set pgs'. v \<in> set (page_cells (osize pool1) pg) \<and>
        pg + ptr_sz \<le> v \<and> v + osize pool1 \<le> pg + GC_PAGE_SZ) \<and>
     (\<forall>pg\<in>set pgs'. \<forall>v\<in>set (page_cells (osize pool1) pg).
        (v \<notin> set fl \<longrightarrow> \<not> marked (mem h' v)) \<and>
        (\<not> gcv_isfree (mem h' v) \<longrightarrow> \<not> marked (mem h' v)) \<and>
        (gcv_isfree (mem heap1 v) \<or> \<not> marked (mem heap1 v) \<longrightarrow> count_list fl v = 1)))"
proof -
  have h0: "ptr_sz \<le> osize pool1"
    by (simp add: pool1_def ptr_sz_def)
  have h1: "osize pool1 \<le> GC_PAGE_SZ"
    by (simp add: pool1_def GC_PAGE_SZ_def)
  have h2: "lseg (mem heap1) (pages pool1) [16384, 32768] NULL"
    by (simp add: pool1_def heap1_def)
  have h3: "NULL \<notin> set [16384, 32768 :: nat]"
    by simp
  have h4: "pages_separate [16384, 32768]"
    by (simp add: GC_PAGE_SZ_def)
  from sweep_pool_invariant [OF h0 h1 h2 h3 h4] h0 h1 h2 h3 h4 show ?thesis
    by blast
qed

text \<open>
  C2, as stated, fails. A page whose cells are all live but unmarked is kept: \<^verbatim>\<open>empty\<close> is
  cleared by every cell that is not free-encoded, marked or not (the comment in the code
  reads ``if the whole page was already unused, free it''). On a pool of 2056-byte cells
  with the single page 16384, every header zero, the page is still the head of the page
  list after the sweep, nothing is released, and all its cells are on the free list.
\<close>

theorem garbage_page_counterexample:
  "list_all (\<lambda>v. \<not> gcv_isfree (mem heap0 v) \<and> \<not> marked (mem heap0 v)) (page_cells 2056 16384) \<and>
   lseg (mem heap0) 16384 [16384] NULL \<and>
   (\<exists>p' h'. sweep_pool \<lparr>osize = 2056, pages = 16384, freelist = NULL\<rparr> heap0 = Some (p', h') \<and>
      pages p' = 16384 \<and> os_log h' = [] \<and> freelist p' = 16392 \<and>
      lseg (mem h') (freelist p') (page_cells 2056 16384) NULL)"
proof -
  let ?p = "\<lparr>osize = 2056, pages = 16384, freelist = NULL\<rparr>"
  have garbage: "list_all (\<lambda>v. \<not> gcv_isfree (mem heap0 v) \<and> \<not> marked (mem heap0 v))
      (page_cells 2056 16384)"
    by (simp add: heap0_def gcv_isfree_def otherbits_def marked_def list_all_iff)
  have seg: "lseg (mem heap0) (pages ?p) [16384] NULL"
    by (simp add: heap0_def)
  have dist: "distinct ([16384] @ concat (map (page_cells (osize ?p)) [16384]))"
    by (rule separate_distinct) simp_all
  have ne: "page_cells 2056 16384 \<noteq> [] \<and> hd (page_cells 2056 16384) = 16384 + ptr_sz"
    by (rule page_cells_hd) (simp_all add: GC_PAGE_SZ_def ptr_sz_def)
  have naf: "\<not> all_free 2056 (mem heap0) 16384"
    using ne by (simp add: all_free_def heap0_def gcv_isfree_def otherbits_def list_all_iff)
  have sv: "surviving (osize ?p) (mem heap0) [16384] = [16384]"
    using naf by (simp add: surviving_def)
  have fl: "swept_freelist (osize ?p) (mem heap0) [16384] = page_cells 2056 16384"
    using naf
    by (simp add: swept_freelist_def surviving_def page_sweepable_def sweepable_def
        heap0_def marked_def)
  have fr: "filter (all_free (osize ?p) (mem heap0)) [16384] = []"
    using naf by simp
  from sweep_pool_spec [of ?p heap0 "[16384]", OF _ seg _ dist] obtain p' h' where
    r: "sweep_pool ?p heap0 = Some (p', h')"
      "lseg (mem h') (pages p') [16384] NULL"
      "lseg (mem h') (freelist p') (page_cells 2056 16384) NULL"
      "os_log h' = os_log heap0"
    unfolding sv fl fr by auto
  from r(2) have "pages p' = 16384"
    by simp
  moreover from lseg_hd [OF r(3)] ne have "freelist p' = 16392"
    by (simp add: ptr_sz_def)
  moreover from r(4) have "os_log h' = []"
    by (simp add: heap0_def)
  ultimately show ?thesis
    using garbage seg r(1,3) by simp
qed

text \<open>
  C2, amended. For a pool with a cell size from \<^verbatim>\<open>sizeof(void*)\<close> to \<^verbatim>\<open>GC_PAGE_SZ\<close> whose
  page list is null-terminated and whose pages do not overlap, \<open>sweep_pool\<close> returns;
  the page list \<open>pgs'\<close> it leaves is made of pages of the pool and the free list \<open>fl\<close> has
  no duplicates; and for every page of the pool: if all its cells are free-encoded at the start, the page is
  not in the page list afterwards, it has been released, and none of its cells is on the
  free list; if some cell of it is not free-encoded, the page stays in the page list, is
  not released, and its cells on the free list are those that were free-encoded or
  unmarked. \<open>freed\<close> are the pages passed to \<^verbatim>\<open>free\<close> by this call.
\<close>

theorem sweep_pool_frees_unused_pages:
  assumes lo: "ptr_sz \<le> osize p" and hi: "osize p \<le> GC_PAGE_SZ"
    and seg: "lseg (mem h) (pages p) pgs NULL" and nn: "NULL \<notin> set pgs"
    and sep: "pages_separate pgs"
  shows "\<exists>p' h' pgs' fl freed. sweep_pool p h = Some (p', h') \<and>
     lseg (mem h') (pages p') pgs' NULL \<and> set pgs' \<subseteq> set pgs \<and>
     lseg (mem h') (freelist p') fl NULL \<and> distinct fl \<and>
     os_log h' = os_log h @ map Free freed \<and> set freed \<subseteq> set pgs \<and>
     (\<forall>pg\<in>set pgs.
        ((\<forall>v\<in>set (page_cells (osize p) pg). gcv_isfree (mem h v)) \<longrightarrow>
           pg \<notin> set pgs' \<and> pg \<in> set freed \<and> set (page_cells (osize p) pg) \<inter> set fl = {}) \<and>
        (\<not> (\<forall>v\<in>set (page_cells (osize p) pg). gcv_isfree (mem h v)) \<longrightarrow>
           pg \<in> set pgs' \<and> pg \<notin> set freed \<and>
           (\<forall>v\<in>set (page_cells (osize p) pg).
              v \<in> set fl \<longleftrightarrow> gcv_isfree (mem h v) \<or> \<not> marked (mem h v))))"
proof -
  let ?osz = "osize p" and ?m = "mem h"
  let ?sv = "surviving ?osz ?m pgs" and ?fl = "swept_freelist ?osz ?m pgs"
  let ?freed = "filter (all_free ?osz ?m) pgs"
  have one: "1 \<le> osize p"
    using lo by (simp add: ptr_sz_def)
  have dist: "distinct (pgs @ concat (map (page_cells ?osz) pgs))"
    using sep one by (rule separate_distinct)
  from sweep_pool_spec [OF one seg nn dist] obtain p' h' where
    res: "sweep_pool p h = Some (p', h')"
    and pseg: "lseg (mem h') (pages p') ?sv NULL"
    and fseg: "lseg (mem h') (freelist p') ?fl NULL"
    and d_fl: "distinct ?fl"
    and log: "os_log h' = os_log h @ map Free ?freed"
    by blast
  have sub: "set ?sv \<subseteq> set pgs"
    by (rule surviving_subset)
  have fsub: "set ?freed \<subseteq> set pgs"
    by simp
  have af: "all_free ?osz ?m pg \<longleftrightarrow> (\<forall>v\<in>set (page_cells ?osz pg). gcv_isfree (?m v))" for pg
    by (simp add: all_free_def list_all_iff)
  have own: "v \<in> set ?fl \<longleftrightarrow> pg \<in> set ?sv \<and> sweepable (?m v)"
    if pg: "pg \<in> set pgs" and v: "v \<in> set (page_cells ?osz pg)" for pg v
  proof
    assume "v \<in> set ?fl"
    then obtain q where q: "q \<in> set ?sv" "v \<in> set (page_cells ?osz q)" and sw: "sweepable (?m v)"
      by (auto simp: swept_freelist_set)
    have "q = pg"
    proof (rule ccontr)
      assume "q \<noteq> pg"
      moreover have "q \<in> set pgs" using q(1) surviving_subset by blast
      ultimately have "set (page_cells ?osz q) \<inter> set (page_cells ?osz pg) = {}"
        using cells_of_other_page [OF sep one] pg by blast
      with q(2) v show False by blast
    qed
    with q(1) sw show "pg \<in> set ?sv \<and> sweepable (?m v)" by simp
  next
    assume "pg \<in> set ?sv \<and> sweepable (?m v)"
    with v show "v \<in> set ?fl"
      by (auto simp: swept_freelist_set)
  qed
  have pages: "((\<forall>v\<in>set (page_cells ?osz pg). gcv_isfree (?m v)) \<longrightarrow>
           pg \<notin> set ?sv \<and> pg \<in> set ?freed \<and> set (page_cells ?osz pg) \<inter> set ?fl = {}) \<and>
        (\<not> (\<forall>v\<in>set (page_cells ?osz pg). gcv_isfree (?m v)) \<longrightarrow>
           pg \<in> set ?sv \<and> pg \<notin> set ?freed \<and>
           (\<forall>v\<in>set (page_cells ?osz pg).
              v \<in> set ?fl \<longleftrightarrow> gcv_isfree (?m v) \<or> \<not> marked (?m v)))"
    if pg: "pg \<in> set pgs" for pg
  proof (cases "all_free ?osz ?m pg")
    case True
    then have "pg \<notin> set ?sv" "pg \<in> set ?freed"
      using pg by (simp_all add: surviving_def)
    moreover from \<open>pg \<notin> set ?sv\<close> have "set (page_cells ?osz pg) \<inter> set ?fl = {}"
      using own [OF pg] by blast
    ultimately show ?thesis
      using True by (simp add: af)
  next
    case False
    then have "pg \<in> set ?sv" "pg \<notin> set ?freed"
      using pg by (simp_all add: surviving_def)
    moreover from \<open>pg \<in> set ?sv\<close>
    have "\<forall>v\<in>set (page_cells ?osz pg). v \<in> set ?fl \<longleftrightarrow> gcv_isfree (?m v) \<or> \<not> marked (?m v)"
      using own [OF pg] by (simp add: sweepable_def)
    ultimately show ?thesis
      using False by (simp add: af)
  qed
  have all_pages: "\<forall>pg\<in>set pgs.
        ((\<forall>v\<in>set (page_cells ?osz pg). gcv_isfree (?m v)) \<longrightarrow>
           pg \<notin> set ?sv \<and> pg \<in> set ?freed \<and> set (page_cells ?osz pg) \<inter> set ?fl = {}) \<and>
        (\<not> (\<forall>v\<in>set (page_cells ?osz pg). gcv_isfree (?m v)) \<longrightarrow>
           pg \<in> set ?sv \<and> pg \<notin> set ?freed \<and>
           (\<forall>v\<in>set (page_cells ?osz pg).
              v \<in> set ?fl \<longleftrightarrow> gcv_isfree (?m v) \<or> \<not> marked (?m v)))"
    using pages by (intro ballI)
  show ?thesis
    apply (rule exI [of _ p'])
    apply (rule exI [of _ h'])
    apply (rule exI [of _ ?sv])
    apply (rule exI [of _ ?fl])
    apply (rule exI [of _ ?freed])
    apply (intro conjI)
           apply (rule res)
          apply (rule pseg)
         apply (rule sub)
        apply (rule fseg)
       apply (rule d_fl)
      apply (rule log)
     apply (rule fsub)
    apply (rule all_pages)
    done
qed

theorem sweep_pool_frees_unused_pages_witness:
  "ptr_sz \<le> osize pool1 \<and> osize pool1 \<le> GC_PAGE_SZ \<and>
   lseg (mem heap1) (pages pool1) [16384, 32768] NULL \<and>
   NULL \<notin> set [16384, 32768 :: nat] \<and> pages_separate [16384, 32768] \<and>
   (\<exists>p' h' pgs' fl freed. sweep_pool pool1 heap1 = Some (p', h') \<and>
     lseg (mem h') (pages p') pgs' NULL \<and> set pgs' \<subseteq> set [16384, 32768] \<and>
     lseg (mem h') (freelist p') fl NULL \<and> distinct fl \<and>
     os_log h' = os_log heap1 @ map Free freed \<and> set freed \<subseteq> set [16384, 32768] \<and>
     (\<forall>pg\<in>set [16384, 32768].
        ((\<forall>v\<in>set (page_cells (osize pool1) pg). gcv_isfree (mem heap1 v)) \<longrightarrow>
           pg \<notin> set pgs' \<and> pg \<in> set freed \<and>
           set (page_cells (osize pool1) pg) \<inter> set fl = {}) \<and>
        (\<not> (\<forall>v\<in>set (page_cells (osize pool1) pg). gcv_isfree (mem heap1 v)) \<longrightarrow>
           pg \<in> set pgs' \<and> pg \<notin> set freed \<and>
           (\<forall>v\<in>set (page_cells (osize pool1) pg).
              v \<in> set fl \<longleftrightarrow> gcv_isfree (mem heap1 v) \<or> \<not> marked (mem heap1 v)))))"
proof -
  have h0: "ptr_sz \<le> osize pool1"
    by (simp add: pool1_def ptr_sz_def)
  have h1: "osize pool1 \<le> GC_PAGE_SZ"
    by (simp add: pool1_def GC_PAGE_SZ_def)
  have h2: "lseg (mem heap1) (pages pool1) [16384, 32768] NULL"
    by (simp add: pool1_def heap1_def)
  have h3: "NULL \<notin> set [16384, 32768 :: nat]"
    by simp
  have h4: "pages_separate [16384, 32768]"
    by (simp add: GC_PAGE_SZ_def)
  from sweep_pool_frees_unused_pages [OF h0 h1 h2 h3 h4] h0 h1 h2 h3 h4 show ?thesis
    by blast
qed

subsection \<open>Termination of the marker\<close>

lemma bind_r_return [simp]: "bind_r r (\<lambda>x. Some (Inr x)) = r"
  by (simp add: bind_r_def split: option.splits sum.splits)

lemma bind_r_assoc: "bind_r (bind_r r f) g = bind_r r (\<lambda>x. bind_r (f x) g)"
  by (simp add: bind_r_def split: option.splits sum.splits)

lemma bind_r_simps [simp]:
  "bind_r None f = None"
  "bind_r (Some (Inl e)) f = Some (Inl e)"
  "bind_r (Some (Inr x)) f = f x"
  by (simp_all add: bind_r_def)

lemma gc_markvals_run: "gc_markvals n rt xs m = run_actions n rt (map Mark xs) m"
proof (induction xs arbitrary: m)
  case Nil
  show ?case by simp
next
  case (Cons x xs)
  have "(\<lambda>m1. gc_markvals n rt xs m1) = run_actions n rt (map Mark xs)"
    using Cons.IH by (intro ext)
  then show ?case by simp
qed

lemma gc_markvals_run_fun: "gc_markvals n rt xs = run_actions n rt (map Mark xs)"
  by (intro ext) (rule gc_markvals_run)

lemma run_actions_append:
  "run_actions n rt (as @ bs) m = bind_r (run_actions n rt as m) (run_actions n rt bs)"
proof (induction as arbitrary: m)
  case Nil
  show ?case by simp
next
  case (Cons a as)
  have IH: "run_actions n rt (as @ bs) = (\<lambda>m. bind_r (run_actions n rt as m) (run_actions n rt bs))"
    using Cons.IH by (intro ext)
  show ?case
    by (cases a) (simp_all add: IH bind_r_assoc Cons.IH)
qed

lemma run_actions_fun:
  "run_actions n rt [] = (\<lambda>m. Some (Inr m))"
  "run_actions n rt (Mark x # as) = (\<lambda>m. bind_r (gc_markval n rt x m) (run_actions n rt as))"
  "run_actions n rt (Setmark x # as) = (\<lambda>m. run_actions n rt as (gc_setmark x m))"
  "run_actions n rt (Methlist x # as) =
     (\<lambda>m. bind_r (gc_mark_methlist n rt x m) (run_actions n rt as))"
  by (rule ext, simp)+

lemma gc_markval_trace:
  "gc_markval (Suc n) rt v m =
     (if v = NULL then Some (Inl Assertion_failed)
      else if gc_marked m v then Some (Inr m)
      else run_actions n rt (trace rt v) (gc_setmark v m))"
proof (cases "objs rt v")
  case (Array dims data space elty_is_bits elems)
  then show ?thesis
    by (simp add: trace_def gc_markvals_run run_actions_fun del: gc_markvals.simps)
qed (simp_all add: trace_def gc_markvals_run gc_markvals_run_fun run_actions_fun
    run_actions_append del: gc_markvals.simps)

lemma gc_mark_methlist_run:
  "gc_mark_methlist (Suc n) rt ml m =
     (if ml \<noteq> NULL
      then run_actions n rt
             [Setmark ml, Mark (ml_sig (methlists rt ml)), Mark (ml_tvars (methlists rt ml)),
              Mark (ml_func (methlists rt ml)), Methlist (ml_next (methlists rt ml))] m
      else Some (Inr m))"
  by (simp add: bind_r_assoc run_actions_fun)

declare gc_markval.simps [simp del] gc_mark_methlist.simps [simp del]

lemma bind_r_Some:
  "bind_r a f = Some r \<longleftrightarrow>
     (\<exists>e. a = Some (Inl e) \<and> r = Inl e) \<or> (\<exists>x. a = Some (Inr x) \<and> f x = Some r)"
  by (auto simp: bind_r_def split: option.splits sum.splits)

lemma run_actions_mono:
  assumes mv: "\<And>x m r. gc_markval n rt x m = Some r \<Longrightarrow> gc_markval n' rt x m = Some r"
    and ml: "\<And>x m r. gc_mark_methlist n rt x m = Some r \<Longrightarrow> gc_mark_methlist n' rt x m = Some r"
  shows "run_actions n rt as m = Some r \<Longrightarrow> run_actions n' rt as m = Some r"
proof (induction as arbitrary: m)
  case Nil
  then show ?case by simp
next
  case (Cons a as)
  show ?case
  proof (cases a)
    case (Mark x)
    with Cons.prems show ?thesis
      by (auto simp: bind_r_Some dest: mv Cons.IH)
  next
    case (Setmark x)
    with Cons.prems show ?thesis
      by (auto dest: Cons.IH)
  next
    case (Methlist x)
    with Cons.prems show ?thesis
      by (auto simp: bind_r_Some dest: ml Cons.IH)
  next
    case Abort
    with Cons.prems show ?thesis by simp
  qed
qed

lemma fuel_mono_both:
  "(\<forall>v m r. gc_markval n rt v m = Some r \<longrightarrow> gc_markval (n + d) rt v m = Some r) \<and>
   (\<forall>ml m r. gc_mark_methlist n rt ml m = Some r \<longrightarrow> gc_mark_methlist (n + d) rt ml m = Some r)"
proof (induction n)
  case 0
  show ?case by (simp add: gc_markval.simps gc_mark_methlist.simps)
next
  case (Suc n)
  have run: "run_actions n rt as m = Some r \<Longrightarrow> run_actions (n + d) rt as m = Some r" for as m r
    using Suc.IH by (intro run_actions_mono [of n rt "n + d"]) blast+
  show ?case
    using run
    by (auto simp: gc_markval_trace gc_mark_methlist_run simp del: run_actions.simps)
qed

lemma gc_markval_fuel: "gc_markval n rt v m = Some r \<Longrightarrow> gc_markval (n + d) rt v m = Some r"
  using fuel_mono_both [of n rt d] by blast

lemma gc_mark_methlist_fuel:
  "gc_mark_methlist n rt ml m = Some r \<Longrightarrow> gc_mark_methlist (n + d) rt ml m = Some r"
  using fuel_mono_both [of n rt d] by blast

lemma run_actions_fuel:
  "run_actions n rt as m = Some r \<Longrightarrow> run_actions (n + d) rt as m = Some r"
  by (rule run_actions_mono [of n rt "n + d"]) (auto intro: gc_markval_fuel gc_mark_methlist_fuel)

lemma gc_setmark_marked [simp]: "gc_marked (gc_setmark v m) v"
  by (simp add: gc_marked_def gc_setmark_def marked_def set_marked_def)

lemma marks_grow_refl [simp]: "marks_grow m m"
  by (simp add: marks_grow_def)

lemma marks_grow_trans: "marks_grow m m1 \<Longrightarrow> marks_grow m1 m2 \<Longrightarrow> marks_grow m m2"
  by (simp add: marks_grow_def)

lemma marks_grow_setmark [simp]: "marks_grow m (gc_setmark v m)"
  by (simp add: marks_grow_def gc_marked_def gc_setmark_def marked_def set_marked_def)

lemma unmarked_mono: "marks_grow m m' \<Longrightarrow> unmarked rt m' \<subseteq> unmarked rt m"
  by (auto simp: unmarked_def marks_grow_def)

lemma unmarked_finite: "finite {v. objs rt v \<noteq> Bits} \<Longrightarrow> finite (unmarked rt m)"
  by (rule finite_subset [of _ "{v. objs rt v \<noteq> Bits}"]) (auto simp: unmarked_def)

lemma unmarked_card_mono:
  "finite {v. objs rt v \<noteq> Bits} \<Longrightarrow> marks_grow m m' \<Longrightarrow>
   card (unmarked rt m') \<le> card (unmarked rt m)"
  by (intro card_mono unmarked_finite unmarked_mono)

lemma unmarked_card_setmark:
  assumes "finite {v. objs rt v \<noteq> Bits}" and "objs rt v \<noteq> Bits" and "\<not> gc_marked m v"
  shows "card (unmarked rt (gc_setmark v m)) < card (unmarked rt m)"
proof (rule psubset_card_mono)
  show "finite (unmarked rt m)"
    using assms(1) by (rule unmarked_finite)
  have "v \<in> unmarked rt m" "v \<notin> unmarked rt (gc_setmark v m)"
    using assms(2,3) by (simp_all add: unmarked_def)
  moreover have "unmarked rt (gc_setmark v m) \<subseteq> unmarked rt m"
    by (rule unmarked_mono) simp
  ultimately show "unmarked rt (gc_setmark v m) \<subset> unmarked rt m"
    by blast
qed

lemma run_actions_terminates:
  assumes fin: "finite {v. objs rt v \<noteq> Bits}"
    and vals: "\<And>m v. card (unmarked rt m) \<le> k \<Longrightarrow>
        \<exists>n r. gc_markval n rt v m = Some r \<and>
          (\<forall>m'. r = Inr m' \<longrightarrow> marks_grow m m' \<and> gc_marked m' v)"
    and lists: "\<And>x m. Methlist x \<in> set as \<Longrightarrow> card (unmarked rt m) \<le> k \<Longrightarrow>
        \<exists>n r. gc_mark_methlist n rt x m = Some r \<and> (\<forall>m'. r = Inr m' \<longrightarrow> marks_grow m m')"
    and card: "card (unmarked rt m) \<le> k"
  shows "\<exists>n r. run_actions n rt as m = Some r \<and> (\<forall>m'. r = Inr m' \<longrightarrow> marks_grow m m')"
  using lists card
proof (induction as arbitrary: m)
  case Nil
  have "run_actions 0 rt [] m = Some (Inr m)" by simp
  then show ?case by fastforce
next
  case (Cons a as)
  have tail: "\<exists>n r. run_actions n rt as m1 = Some r \<and> (\<forall>m'. r = Inr m' \<longrightarrow> marks_grow m1 m')"
    if "marks_grow m m1" for m1
  proof (rule Cons.IH)
    show "card (unmarked rt m1) \<le> k"
      using unmarked_card_mono [OF fin that] Cons.prems(2) by simp
  next
    fix x m2 assume "Methlist x \<in> set as" "card (unmarked rt m2) \<le> k"
    then show "\<exists>n r. gc_mark_methlist n rt x m2 = Some r \<and>
        (\<forall>m'. r = Inr m' \<longrightarrow> marks_grow m2 m')"
      using Cons.prems(1) [of x m2] by simp
  qed
  have seq: "\<exists>n r. bind_r (f n m) (run_actions n rt as) = Some r \<and>
        (\<forall>m'. r = Inr m' \<longrightarrow> marks_grow m m')"
    if head: "\<exists>n r. f n m = Some r \<and> (\<forall>m'. r = Inr m' \<longrightarrow> marks_grow m m')"
      and fuel: "\<And>n d r. f n m = Some r \<Longrightarrow> f (n + d) m = Some r"
    for f :: "nat \<Rightarrow> memory \<Rightarrow> memory result"
  proof -
    from head obtain n1 r1 where h: "f n1 m = Some r1"
      and g1: "\<forall>m'. r1 = Inr m' \<longrightarrow> marks_grow m m'"
      by blast
    show ?thesis
    proof (cases r1)
      case (Inl e)
      with h have "bind_r (f n1 m) (run_actions n1 rt as) = Some (Inl e)"
        by simp
      then show ?thesis by fastforce
    next
      case (Inr m1)
      with g1 have grow1: "marks_grow m m1" by simp
      from tail [OF grow1] obtain n2 r2 where t: "run_actions n2 rt as m1 = Some r2"
        and g2: "\<forall>m'. r2 = Inr m' \<longrightarrow> marks_grow m1 m'"
        by blast
      have "f (n1 + n2) m = Some (Inr m1)"
        using fuel [OF h] Inr by simp
      moreover have "run_actions (n1 + n2) rt as m1 = Some r2"
        using run_actions_fuel [OF t, of n1] by (simp add: add.commute)
      ultimately have "bind_r (f (n1 + n2) m) (run_actions (n1 + n2) rt as) = Some r2"
        by simp
      moreover have "\<forall>m'. r2 = Inr m' \<longrightarrow> marks_grow m m'"
        using g2 grow1 marks_grow_trans by blast
      ultimately show ?thesis by blast
    qed
  qed
  show ?case
  proof (cases a)
    case (Mark x)
    have "\<exists>n r. gc_markval n rt x m = Some r \<and> (\<forall>m'. r = Inr m' \<longrightarrow> marks_grow m m')"
      using vals [OF Cons.prems(2), of x] by blast
    from seq [of "\<lambda>n. gc_markval n rt x", OF this gc_markval_fuel] Mark show ?thesis
      by simp
  next
    case (Setmark x)
    from tail [of "gc_setmark x m"] obtain n r where
      "run_actions n rt as (gc_setmark x m) = Some r"
      "\<forall>m'. r = Inr m' \<longrightarrow> marks_grow (gc_setmark x m) m'"
      by auto
    then have "run_actions n rt (a # as) m = Some r \<and>
        (\<forall>m'. r = Inr m' \<longrightarrow> marks_grow m m')"
      using Setmark marks_grow_trans [OF marks_grow_setmark, of x m] by simp
    then show ?thesis by blast
  next
    case (Methlist x)
    have "\<exists>n r. gc_mark_methlist n rt x m = Some r \<and> (\<forall>m'. r = Inr m' \<longrightarrow> marks_grow m m')"
      using Cons.prems(1) [of x m] Cons.prems(2) Methlist by simp
    from seq [of "\<lambda>n. gc_mark_methlist n rt x", OF this gc_mark_methlist_fuel] Methlist
    show ?thesis
      by simp
  next
    case Abort
    then have "run_actions 0 rt (a # as) m = Some (Inl Assertion_failed)" by simp
    then show ?thesis by fastforce
  qed
qed

lemma gc_mark_methlist_terminates:
  assumes fin: "finite {v. objs rt v \<noteq> Bits}"
    and vals: "\<And>m v. card (unmarked rt m) \<le> k \<Longrightarrow>
        \<exists>n r. gc_markval n rt v m = Some r \<and>
          (\<forall>m'. r = Inr m' \<longrightarrow> marks_grow m m' \<and> gc_marked m' v)"
    and chain: "((\<lambda>a. ml_next (methlists rt a)) ^^ j) x = NULL"
    and card: "card (unmarked rt m) \<le> k"
  shows "\<exists>n r. gc_mark_methlist n rt x m = Some r \<and> (\<forall>m'. r = Inr m' \<longrightarrow> marks_grow m m')"
  using chain card
proof (induction j arbitrary: x m)
  case 0
  then have "gc_mark_methlist (Suc 0) rt x m = Some (Inr m)"
    by (simp add: gc_mark_methlist.simps)
  then show ?case by fastforce
next
  case (Suc j)
  show ?case
  proof (cases "x = NULL")
    case True
    then have "gc_mark_methlist (Suc 0) rt x m = Some (Inr m)"
      by (simp add: gc_mark_methlist.simps)
    then show ?thesis by fastforce
  next
    case False
    let ?nx = "ml_next (methlists rt x)"
    let ?as = "[Setmark x, Mark (ml_sig (methlists rt x)), Mark (ml_tvars (methlists rt x)),
                Mark (ml_func (methlists rt x)), Methlist ?nx]"
    have nx: "((\<lambda>a. ml_next (methlists rt a)) ^^ j) ?nx = NULL"
      using Suc.prems(1) funpow_swap1 [of "\<lambda>a. ml_next (methlists rt a)" j x] by simp
    have "\<exists>n r. run_actions n rt ?as m = Some r \<and> (\<forall>m'. r = Inr m' \<longrightarrow> marks_grow m m')"
    proof (rule run_actions_terminates [OF fin vals _ Suc.prems(2)])
      fix y m2 assume "Methlist y \<in> set ?as" and c: "card (unmarked rt m2) \<le> k"
      then have "y = ?nx" by simp
      with Suc.IH [OF nx c]
      show "\<exists>n r. gc_mark_methlist n rt y m2 = Some r \<and> (\<forall>m'. r = Inr m' \<longrightarrow> marks_grow m2 m')"
        by simp
    qed
    then obtain n r where "run_actions n rt ?as m = Some r"
      "\<forall>m'. r = Inr m' \<longrightarrow> marks_grow m m'"
      by blast
    with False have "gc_mark_methlist (Suc n) rt x m = Some r \<and>
        (\<forall>m'. r = Inr m' \<longrightarrow> marks_grow m m')"
      by (simp only: gc_mark_methlist_run) simp
    then show ?thesis by blast
  qed
qed

lemma trace_methlist:
  "Methlist x \<in> set (trace rt v) \<Longrightarrow>
   \<exists>defs cache c1. objs rt v = Mtable defs cache c1 \<and> (x = defs \<or> x = cache)"
  by (cases "objs rt v") (auto simp: trace_def split: if_splits)

lemma gc_markval_terminates_card:
  assumes fin: "finite {v. objs rt v \<noteq> Bits}"
    and mls: "\<And>v defs cache c1. objs rt v = Mtable defs cache c1 \<Longrightarrow>
        ml_terminates rt defs \<and> ml_terminates rt cache"
  shows "card (unmarked rt m) \<le> k \<Longrightarrow>
     \<exists>n r. gc_markval n rt v m = Some r \<and>
       (\<forall>m'. r = Inr m' \<longrightarrow> marks_grow m m' \<and> gc_marked m' v)"
proof (induction k arbitrary: m v)
  case 0
  then have none: "unmarked rt m = {}"
    using unmarked_finite [OF fin, of m] by simp
  have "gc_markval (Suc 0) rt v m =
      (if v = NULL then Some (Inl Assertion_failed)
       else if gc_marked m v then Some (Inr m) else Some (Inr (gc_setmark v m)))"
  proof (cases "v \<noteq> NULL \<and> \<not> gc_marked m v")
    case True
    with none have "objs rt v = Bits"
      by (auto simp: unmarked_def)
    with True show ?thesis
      by (simp add: gc_markval_trace trace_def)
  next
    case False
    then show ?thesis
      by (auto simp: gc_markval_trace)
  qed
  then have "\<exists>r. gc_markval (Suc 0) rt v m = Some r \<and>
      (\<forall>m'. r = Inr m' \<longrightarrow> marks_grow m m' \<and> gc_marked m' v)"
    by auto
  then show ?case by blast
next
  case (Suc k)
  show ?case
  proof (cases "v \<noteq> NULL \<and> \<not> gc_marked m v \<and> objs rt v \<noteq> Bits")
    case False
    have "gc_markval (Suc 0) rt v m =
        (if v = NULL then Some (Inl Assertion_failed)
         else if gc_marked m v then Some (Inr m) else Some (Inr (gc_setmark v m)))"
      using False by (auto simp: gc_markval_trace trace_def)
    then have "\<exists>r. gc_markval (Suc 0) rt v m = Some r \<and>
        (\<forall>m'. r = Inr m' \<longrightarrow> marks_grow m m' \<and> gc_marked m' v)"
      by auto
    then show ?thesis by blast
  next
    case True
    let ?m1 = "gc_setmark v m"
    have c1: "card (unmarked rt ?m1) \<le> k"
      using unmarked_card_setmark [OF fin, of v m] True Suc.prems by simp
    have "\<exists>n r. run_actions n rt (trace rt v) ?m1 = Some r \<and>
        (\<forall>m'. r = Inr m' \<longrightarrow> marks_grow ?m1 m')"
    proof (rule run_actions_terminates [OF fin _ _ c1])
      fix m2 w assume "card (unmarked rt m2) \<le> k"
      then show "\<exists>n r. gc_markval n rt w m2 = Some r \<and>
          (\<forall>m'. r = Inr m' \<longrightarrow> marks_grow m2 m' \<and> gc_marked m' w)"
        by (rule Suc.IH)
    next
      fix x m2 assume x: "Methlist x \<in> set (trace rt v)" and c: "card (unmarked rt m2) \<le> k"
      from trace_methlist [OF x] mls have "ml_terminates rt x"
        by blast
      then obtain j where "((\<lambda>a. ml_next (methlists rt a)) ^^ j) x = NULL"
        by (auto simp: ml_terminates_def)
      from gc_mark_methlist_terminates [OF fin _ this c] Suc.IH
      show "\<exists>n r. gc_mark_methlist n rt x m2 = Some r \<and> (\<forall>m'. r = Inr m' \<longrightarrow> marks_grow m2 m')"
        by blast
    qed
    then obtain n r where run: "run_actions n rt (trace rt v) ?m1 = Some r"
      and grow: "\<forall>m'. r = Inr m' \<longrightarrow> marks_grow ?m1 m'"
      by blast
    have res: "gc_markval (Suc n) rt v m = Some r"
      using True run by (simp add: gc_markval_trace)
    have "marks_grow m m' \<and> gc_marked m' v" if "r = Inr m'" for m'
    proof -
      from grow that have g: "marks_grow ?m1 m'" by simp
      then have "gc_marked m' v"
        by (simp add: marks_grow_def)
      moreover have "marks_grow m m'"
        using marks_grow_trans [OF marks_grow_setmark g] .
      ultimately show ?thesis by simp
    qed
    with res show ?thesis by blast
  qed
qed

lemma looping_bits:
  "\<exists>m'. gc_markval (Suc n) runtime_looping_methlist 256 m = Some (Inr m')"
  by (simp add: gc_markval_trace trace_def runtime_looping_methlist_def)

lemma looping_methlist_none: "gc_mark_methlist n runtime_looping_methlist 128 m = None"
proof (induction n arbitrary: m)
  case 0
  show ?case by (simp add: gc_mark_methlist.simps)
next
  case (Suc n)
  let ?rt = "runtime_looping_methlist"
  have ml: "methlists ?rt 128 = \<lparr>ml_sig = 256, ml_tvars = 256, ml_func = 256, ml_next = 128\<rparr>"
    by (simp add: runtime_looping_methlist_def)
  show ?case
  proof (cases n)
    case 0
    then show ?thesis
      by (simp add: gc_mark_methlist_run ml gc_markval.simps)
  next
    case (Suc k)
    obtain m1 where m1: "gc_markval (Suc k) ?rt 256 (gc_setmark 128 m) = Some (Inr m1)"
      using looping_bits by blast
    obtain m2 where m2: "gc_markval (Suc k) ?rt 256 m1 = Some (Inr m2)"
      using looping_bits by blast
    obtain m3 where m3: "gc_markval (Suc k) ?rt 256 m2 = Some (Inr m3)"
      using looping_bits by blast
    have "gc_mark_methlist n ?rt 128 m3 = None"
      by (rule Suc.IH)
    with m1 m2 m3 Suc show ?thesis
      by (simp add: gc_mark_methlist_run ml)
  qed
qed

text \<open>
  C7, as stated, fails. \<open>gc_mark_methlist\<close> follows the \<^verbatim>\<open>next\<close> links of a method list
  without looking at mark bits: on a finite heap whose only method table has a list that
  links back to itself, \<open>gc_markval\<close> does not return, whatever the bound.
\<close>

theorem looping_methlist_counterexample:
  "finite {v. objs runtime_looping_methlist v \<noteq> Bits} \<and>
   objs runtime_looping_methlist 64 = Mtable 128 NULL [] \<and>
   ml_next (methlists runtime_looping_methlist 128) = 128 \<and>
   (\<forall>n. gc_markval n runtime_looping_methlist 64 (\<lambda>a. 0) = None)"
proof -
  let ?rt = "runtime_looping_methlist"
  have "{v. objs ?rt v \<noteq> Bits} \<subseteq> {64}"
    by (auto simp: runtime_looping_methlist_def split: if_splits)
  then have fin: "finite {v. objs ?rt v \<noteq> Bits}"
    by (rule finite_subset) simp
  have ob: "objs ?rt 64 = Mtable 128 NULL []"
    by (simp add: runtime_looping_methlist_def)
  have nx: "ml_next (methlists ?rt 128) = 128"
    by (simp add: runtime_looping_methlist_def)
  have "gc_markval n ?rt 64 (\<lambda>a. 0) = None" for n
  proof (cases n)
    case 0
    then show ?thesis by (simp add: gc_markval.simps)
  next
    case (Suc k)
    have "\<not> gc_marked (\<lambda>a. 0) 64"
      by (simp add: gc_marked_def marked_def)
    then show ?thesis
      unfolding Suc gc_markval_trace
      by (simp add: trace_def ob looping_methlist_none)
  qed
  with fin ob nx show ?thesis by simp
qed

text \<open>
  C7, amended. On a heap where only finitely many addresses hold values with references
  and where the two method lists of every method table end in \<^verbatim>\<open>NULL\<close>, \<open>gc_markval\<close>
  terminates on every value and from every memory, cycles among the values included:
  some bound lets it return or abort on a failed assertion. When it returns, the value is
  marked and no mark bit has been cleared. On a value that is already marked it returns at
  once and leaves the memory as it is; on one that is not, everything it does further
  starts from the memory in which the value is marked. So a value passes the mark test at
  most once in a mark phase.
\<close>

theorem gc_markval_terminates:
  assumes "finite {v. objs rt v \<noteq> Bits}"
    and "\<forall>v defs cache c1. objs rt v = Mtable defs cache c1 \<longrightarrow>
           ml_terminates rt defs \<and> ml_terminates rt cache"
  shows "(\<exists>n r. gc_markval n rt v m = Some r \<and>
            (\<forall>m'. r = Inr m' \<longrightarrow> gc_marked m' v \<and> marks_grow m m')) \<and>
         (v \<noteq> NULL \<and> gc_marked m v \<longrightarrow> gc_markval (Suc k) rt v m = Some (Inr m)) \<and>
         (v \<noteq> NULL \<and> \<not> gc_marked m v \<longrightarrow>
            gc_markval (Suc k) rt v m = run_actions k rt (trace rt v) (gc_setmark v m))"
proof -
  have "\<exists>n r. gc_markval n rt v m = Some r \<and>
      (\<forall>m'. r = Inr m' \<longrightarrow> marks_grow m m' \<and> gc_marked m' v)"
  proof (rule gc_markval_terminates_card [OF assms(1), where k = "card (unmarked rt m)"])
    fix w defs cache c1 assume "objs rt w = Mtable defs cache c1"
    with assms(2) show "ml_terminates rt defs \<and> ml_terminates rt cache"
      by blast
  next
    show "card (unmarked rt m) \<le> card (unmarked rt m)"
      by simp
  qed
  then have "\<exists>n r. gc_markval n rt v m = Some r \<and>
      (\<forall>m'. r = Inr m' \<longrightarrow> gc_marked m' v \<and> marks_grow m m')"
    by blast
  then show ?thesis
    by (simp add: gc_markval_trace)
qed

theorem gc_markval_terminates_witness:
  "finite {v. objs runtime_cycle v \<noteq> Bits} \<and>
   objs runtime_cycle 64 = Tuple [128] \<and> objs runtime_cycle 128 = Tuple [64] \<and>
   ml_terminates runtime_cycle 256 \<and> ml_terminates runtime_cycle NULL \<and>
   (\<exists>n r. gc_markval n runtime_cycle 64 (\<lambda>a. 0) = Some r \<and>
      (\<forall>m'. r = Inr m' \<longrightarrow> gc_marked m' 64 \<and> marks_grow (\<lambda>a. 0) m')) \<and>
   gc_markval (Suc 0) runtime_cycle 64 ((\<lambda>a. 0)(56 := 1)) = Some (Inr ((\<lambda>a. 0)(56 := 1))) \<and>
   gc_markval (Suc 0) runtime_cycle 64 (\<lambda>a. 0) =
     run_actions 0 runtime_cycle (trace runtime_cycle 64) (gc_setmark 64 (\<lambda>a. 0))"
proof -
  let ?rt = "runtime_cycle"
  have "{v. objs ?rt v \<noteq> Bits} \<subseteq> {64, 128, 192}"
    by (auto simp: runtime_cycle_def split: if_splits)
  then have fin: "finite {v. objs ?rt v \<noteq> Bits}"
    by (rule finite_subset) simp
  have obs: "objs ?rt 64 = Tuple [128]" "objs ?rt 128 = Tuple [64]"
    by (simp_all add: runtime_cycle_def)
  have "((\<lambda>a. ml_next (methlists ?rt a)) ^^ 1) 256 = NULL"
    by (simp add: runtime_cycle_def)
  then have t1: "ml_terminates ?rt 256"
    unfolding ml_terminates_def by blast
  have "((\<lambda>a. ml_next (methlists ?rt a)) ^^ 0) NULL = NULL"
    by simp
  then have t0: "ml_terminates ?rt NULL"
    unfolding ml_terminates_def by blast
  have tabs: "\<forall>v defs cache c1. objs ?rt v = Mtable defs cache c1 \<longrightarrow>
      ml_terminates ?rt defs \<and> ml_terminates ?rt cache"
    using t1 t0 by (auto simp: runtime_cycle_def split: if_splits)
  have unm: "\<not> gc_marked (\<lambda>a. 0) 64" and mk: "gc_marked ((\<lambda>a. 0)(56 := 1)) 64"
    by (simp_all add: gc_marked_def marked_def gc_val_def ptr_sz_def)
  from gc_markval_terminates [OF fin tabs, of 64 "\<lambda>a. 0" 0]
    gc_markval_terminates [OF fin tabs, of 64 "(\<lambda>a. 0)(56 := 1)" 0]
    fin obs t1 t0 unm mk
  show ?thesis
    by simp
qed

end
